theory Spec2Isabelle
  imports Main "HOL-Library.Word"
begin

section \<open>JavaScript values and strings\<close>

text \<open>
  The entries of the arrays handled by \<^verbatim>\<open>Permutation.js\<close> are integers or
  \<^verbatim>\<open>undefined\<close> (what \<^verbatim>\<open>parseChar\<close> gives on a character it cannot read and what
  a read of a missing property gives). A JavaScript string is a sequence of 16-bit code
  units; \<^verbatim>\<open>String.fromCharCode\<close> reduces its argument modulo \<open>2 ^ 16\<close>. Integers
  are exact here; the numbers of the code are IEEE doubles, which agree with them below
  \<open>2 ^ 53\<close> in absolute value.
\<close>

datatype jsval = Num int | Undefined

type_synonym jschar = "16 word"
type_synonym jsstring = "jschar list"

definition charCodeAt0 :: "jschar \<Rightarrow> int" where
  "charCodeAt0 c = uint c"

definition fromCharCode :: "int \<Rightarrow> jschar" where
  "fromCharCode k = word_of_int k"

text \<open>An ASCII literal as a JavaScript string.\<close>

definition lit :: "char \<Rightarrow> jschar" where
  "lit c = fromCharCode (of_char c)"

definition js :: "string \<Rightarrow> jsstring" where
  "js s = map lit s"

text \<open>The relational operators of JavaScript on a number or \<^verbatim>\<open>undefined\<close>
  against a number: a comparison with \<^verbatim>\<open>undefined\<close> is false.\<close>

fun js_gt :: "jsval \<Rightarrow> int \<Rightarrow> bool" where
  "js_gt (Num a) b = (a > b)"
| "js_gt Undefined b = False"

fun js_lt :: "jsval \<Rightarrow> int \<Rightarrow> bool" where
  "js_lt (Num a) b = (a < b)"
| "js_lt Undefined b = False"

fun js_ge :: "jsval \<Rightarrow> int \<Rightarrow> bool" where
  "js_ge (Num a) b = (a \<ge> b)"
| "js_ge Undefined b = False"

fun js_le :: "jsval \<Rightarrow> int \<Rightarrow> bool" where
  "js_le (Num a) b = (a \<le> b)"
| "js_le Undefined b = False"

section \<open>Configuration constants\<close>

definition C0 :: int where "C0 = charCodeAt0 (lit CHR ''0'')"
definition C9 :: int where "C9 = charCodeAt0 (lit CHR ''9'')"
definition CA :: int where "CA = charCodeAt0 (lit CHR ''A'')"
definition CZ :: int where "CZ = charCodeAt0 (lit CHR ''Z'')"

definition PERMUTATION_INDEX :: int where
  "PERMUTATION_INDEX = 0"

definition MAX_ALLOWED_PERMUTATION_INDEX :: int where
  "MAX_ALLOWED_PERMUTATION_INDEX = 35"

section \<open>Character codec\<close>

text \<open>
  \<^verbatim>\<open>getChar\<close> and \<^verbatim>\<open>parseChar\<close> fall off their last branch (after logging) where they
  cannot answer, so the call evaluates to \<^verbatim>\<open>undefined\<close>: \<open>None\<close> for the character,
  \<open>Undefined\<close> for the number.
\<close>

definition getChar :: "jsval \<Rightarrow> jschar option" where
  "getChar i =
     (if js_ge i 0 \<and> js_le i 9 then
        (case i of Num k \<Rightarrow> Some (fromCharCode (C0 + k)) | Undefined \<Rightarrow> None)
      else if js_le i MAX_ALLOWED_PERMUTATION_INDEX then
        (case i of Num k \<Rightarrow> Some (fromCharCode (CA + (k - 10))) | Undefined \<Rightarrow> None)
      else None)"

definition parseChar :: "jschar \<Rightarrow> jsval" where
  "parseChar c =
     (let i = charCodeAt0 c in
      if i \<ge> C0 \<and> i \<le> C9 then Num (i - C0)
      else if i \<ge> CA \<and> i \<le> CZ then Num ((i + 10) - CA)
      else Undefined)"

section \<open>Array utilities\<close>

text \<open>
  \<^verbatim>\<open>hasDuplicates\<close> counts the entries in an object keyed by the entry (the keys of
  distinct integers and of \<^verbatim>\<open>undefined\<close> are distinct strings), then looks for a key
  counted twice.
\<close>

definition count_entry :: "(jsval \<rightharpoonup> nat) \<Rightarrow> jsval \<Rightarrow> (jsval \<rightharpoonup> nat)" where
  "count_entry counts x =
     (let counts' = (if counts x = None then counts(x \<mapsto> 0) else counts)
      in counts'(x \<mapsto> Suc (the (counts' x))))"

definition hasDuplicates :: "jsval list \<Rightarrow> bool" where
  "hasDuplicates arr =
     (let counts = fold (\<lambda>x c. count_entry c x) arr Map.empty
      in list_ex (\<lambda>key. case counts key of Some n \<Rightarrow> n \<ge> 2 | None \<Rightarrow> False) (remdups arr))"

section \<open>Permutation helpers\<close>

definition validatePermutationArray :: "jsval list \<Rightarrow> bool" where
  "validatePermutationArray arr =
     (if hasDuplicates arr then False
      else list_all (\<lambda>x. \<not> (js_gt x MAX_ALLOWED_PERMUTATION_INDEX \<or> js_lt x PERMUTATION_INDEX)) arr)"

section \<open>The Permutation class\<close>

text \<open>
  An initialised object holds \<^verbatim>\<open>arr[i]\<close> under the property \<^verbatim>\<open>PERMUTATION_INDEX + i\<close>
  and answers \<^verbatim>\<open>length\<close> with \<^verbatim>\<open>arr.length\<close>.
\<close>

record permutation =
  entries :: "jsval list"

text \<open>
  What an operation that is to build a Permutation can end with: an initialised object;
  the object the constructor left without \<^verbatim>\<open>length\<close> and entries because validation
  failed (\<^verbatim>\<open>return undefined\<close> inside the constructor); the value \<^verbatim>\<open>undefined\<close>
  returned by the operation itself; a \<^verbatim>\<open>TypeError\<close> thrown by a method call on
  \<^verbatim>\<open>undefined\<close>.
\<close>

datatype result = Constructed permutation | Invalid | ReturnedUndefined | ThrewTypeError

definition Permutation :: "jsval list \<Rightarrow> result" where
  "Permutation arr =
     (if \<not> validatePermutationArray arr then Invalid
      else Constructed \<lparr>entries = arr\<rparr>)"

definition plength :: "permutation \<Rightarrow> nat" where
  "plength p = length (entries p)"

text \<open>The property read \<^verbatim>\<open>this[k]\<close>: \<^verbatim>\<open>undefined\<close> for a key that was never stored.\<close>

definition getProp :: "permutation \<Rightarrow> jsval \<Rightarrow> jsval" where
  "getProp p key =
     (case key of
        Num k \<Rightarrow>
          (if PERMUTATION_INDEX \<le> k \<and> k < PERMUTATION_INDEX + int (plength p)
           then entries p ! nat (k - PERMUTATION_INDEX) else Undefined)
      | Undefined \<Rightarrow> Undefined)"

definition at :: "permutation \<Rightarrow> int \<Rightarrow> jsval" where
  "at p i = getProp p (Num (i + PERMUTATION_INDEX))"

definition fromFunction :: "(int \<Rightarrow> jsval) \<Rightarrow> int \<Rightarrow> result" where
  "fromFunction func n = Permutation (map func [0..n - 1])"

definition getIdentity :: "int \<Rightarrow> result" where
  "getIdentity n = fromFunction (\<lambda>i. Num (i + PERMUTATION_INDEX)) n"


section \<open>Strings of a permutation\<close>

text \<open>
  \<^verbatim>\<open>Array.prototype.join('')\<close> writes an \<^verbatim>\<open>undefined\<close> element as the empty string and
  a number in decimal.
\<close>

fun decimal :: "nat \<Rightarrow> jsstring" where
  "decimal n =
     (if n < 10 then [fromCharCode (C0 + int n)]
      else decimal (n div 10) @ [fromCharCode (C0 + int (n mod 10))])"

declare decimal.simps [simp del]

definition numberToString :: "int \<Rightarrow> jsstring" where
  "numberToString k = (if k < 0 then lit CHR ''-'' # decimal (nat (- k)) else decimal (nat k))"

definition join_numbers :: "jsval list \<Rightarrow> jsstring" where
  "join_numbers xs =
     concat (map (\<lambda>v. case v of Num k \<Rightarrow> numberToString k | Undefined \<Rightarrow> []) xs)"

definition join_chars :: "jschar option list \<Rightarrow> jsstring" where
  "join_chars xs = concat (map (\<lambda>v. case v of Some c \<Rightarrow> [c] | None \<Rightarrow> []) xs)"

definition toString :: "permutation \<Rightarrow> jsstring" where
  "toString p =
     join_chars (map (\<lambda>i. getChar (getProp p (Num i)))
       [PERMUTATION_INDEX..int (plength p) + PERMUTATION_INDEX - 1])"

section \<open>Cycle decomposition\<close>

text \<open>
  The inner \<^verbatim>\<open>while (j != i)\<close> of \<^verbatim>\<open>getCycles\<close> has no bound of its own: \<open>None\<close> is
  the loop that never leaves. \<^verbatim>\<open>already_used\<close> is the object used as a set of keys.
\<close>

partial_function (option) cycle_loop ::
  "permutation \<Rightarrow> jsval \<Rightarrow> jsval \<Rightarrow> jsval list \<Rightarrow> (jsval \<rightharpoonup> bool)
     \<Rightarrow> (jsval list \<times> (jsval \<rightharpoonup> bool)) option" where
  [code]: "cycle_loop perm i j curr_cycle already_used =
     (if j \<noteq> i
      then cycle_loop perm i (getProp perm j) (curr_cycle @ [j]) (already_used(j \<mapsto> True))
      else Some (curr_cycle, already_used))"

fun cycles_scan ::
  "permutation \<Rightarrow> nat list \<Rightarrow> (jsval \<rightharpoonup> bool) \<Rightarrow> jsval list list \<Rightarrow> jsval list list option" where
  "cycles_scan perm [] already_used cycles = Some cycles"
| "cycles_scan perm (i # rest) already_used cycles =
     (if getProp perm (Num (int i)) \<noteq> Num (int i) \<and> already_used (Num (int i)) = None
      then (case cycle_loop perm (Num (int i)) (getProp perm (Num (int i))) [Num (int i)]
                   (already_used(Num (int i) \<mapsto> True)) of
              None \<Rightarrow> None
            | Some (curr_cycle, already_used') \<Rightarrow>
                cycles_scan perm rest already_used' (cycles @ [curr_cycle]))
      else cycles_scan perm rest already_used cycles)"

definition getCycles :: "permutation \<Rightarrow> jsval list list option" where
  "getCycles perm = cycles_scan perm [0..<plength perm] Map.empty []"

section \<open>Composition and equality\<close>

definition compose :: "permutation \<Rightarrow> permutation \<Rightarrow> result" where
  "compose this theta =
     (if plength theta \<noteq> plength this then ReturnedUndefined
      else Permutation
             (map (\<lambda>i. getProp this (getProp theta (Num i))) [0..int (plength this) - 1]))"

text \<open>
  Inside the static \<^verbatim>\<open>Permutation.equals\<close>, \<^verbatim>\<open>this\<close> is the constructor function, and
  the \<^verbatim>\<open>length\<close> of a function is the number of its formal parameters:
  \<^verbatim>\<open>Permutation = function(arr)\<close> has one.
\<close>

definition Permutation_length :: int where
  "Permutation_length = 1"

definition Permutation_equals :: "permutation \<Rightarrow> permutation \<Rightarrow> bool" where
  "Permutation_equals left right =
     list_all (\<lambda>i. \<not> (at left i \<noteq> at right i)) [0..Permutation_length - 1]"

definition equals :: "permutation \<Rightarrow> permutation \<Rightarrow> bool" where
  "equals this right = Permutation_equals this right"

section \<open>Parsing\<close>

text \<open>\<^verbatim>\<open>String.prototype.indexOf(pat, pos)\<close> and \<^verbatim>\<open>substring(a, b)\<close>.\<close>

fun find_from :: "jsstring \<Rightarrow> jsstring \<Rightarrow> nat \<Rightarrow> int" where
  "find_from [] pat k = (if pat = [] then int k else - 1)"
| "find_from (x # xs) pat k =
     (if take (length pat) (x # xs) = pat then int k else find_from xs pat (Suc k))"

definition indexOf :: "jsstring \<Rightarrow> jsstring \<Rightarrow> int \<Rightarrow> int" where
  "indexOf s pat pos =
     (let start = nat (min (max pos 0) (int (length s))) in find_from (drop start s) pat start)"

definition substring :: "jsstring \<Rightarrow> int \<Rightarrow> int \<Rightarrow> jsstring" where
  "substring s a b =
     (let a' = nat (min (max a 0) (int (length s)));
          b' = nat (min (max b 0) (int (length s)))
      in take (max a' b' - min a' b') (drop (min a' b') s))"

text \<open>\<^verbatim>\<open>if (v > m) m = v\<close> for a parsed character \<open>v\<close>.\<close>

definition raise_to :: "int \<Rightarrow> jsval \<Rightarrow> int" where
  "raise_to m v = (if js_gt v m then (case v of Num k \<Rightarrow> k | Undefined \<Rightarrow> m) else m)"

function splitCycles_loop :: "jsstring \<Rightarrow> int \<Rightarrow> jsstring list \<Rightarrow> jsstring list" where
  "splitCycles_loop s i result =
     (if i \<ge> 0 then
        (let j = indexOf s [lit CHR '')''] i;
             result' = (if j > 0 \<and> j > i + 2 then result @ [substring s (i + 1) j] else result)
         in splitCycles_loop s (indexOf s [lit CHR ''(''] (i + 1)) result')
      else result)"
  by pat_completeness auto

termination splitCycles_loop
proof (relation "measure (\<lambda>(s, i, r). if i < 0 then 0 else 1 + nat (int (length s) - i))")
  show "wf (measure (\<lambda>(s, i, r). if i < 0 then 0 else 1 + nat (int (length s) - i)))" by simp
next
  fix s :: jsstring and i :: int and result x xa :: "jsstring list" and j
  assume i: "0 \<le> i"
  define pat where "pat = [lit CHR ''('']"
  define st where "st = nat (min (max (i + 1) 0) (int (length s)))"
  define i' where "i' = indexOf s pat (i + 1)"
  have found: "0 \<le> find_from xs pat k \<Longrightarrow>
      int k \<le> find_from xs pat k \<and> find_from xs pat k < int k + int (length xs)" for xs k
  proof (induction xs arbitrary: k)
    case Nil
    then show ?case by (simp add: pat_def)
  next
    case (Cons a xs)
    show ?case
    proof (cases "take (length pat) (a # xs) = pat")
      case True
      then show ?thesis by simp
    next
      case False
      then have e: "find_from (a # xs) pat k = find_from xs pat (Suc k)" by simp
      with Cons.prems have "0 \<le> find_from xs pat (Suc k)" by simp
      from Cons.IH[OF this] show ?thesis unfolding e by simp
    qed
  qed
  have eq: "i' = find_from (drop st s) pat st"
    unfolding i'_def indexOf_def Let_def st_def ..
  have "i' < 0 \<or> (i < i' \<and> i' < int (length s))"
  proof (cases "i' < 0")
    case False
    then have b: "int st \<le> i'" "i' < int st + int (length (drop st s))"
      using found[of "drop st s" st] unfolding eq by simp_all
    then have "drop st s \<noteq> []" by auto
    then have lt: "st < length s" by simp
    then have "i + 1 \<le> int st" unfolding st_def by simp
    with b lt show ?thesis by simp
  qed simp
  then show "((s, indexOf s [lit CHR ''(''] (i + 1), xa), (s, i, result))
      \<in> measure (\<lambda>(s, i, r). if i < 0 then 0 else 1 + nat (int (length s) - i))"
    using i unfolding i'_def[unfolded pat_def, symmetric] by auto
qed

declare splitCycles_loop.simps [simp del]

definition splitCycles :: "jsstring \<Rightarrow> jsstring list" where
  "splitCycles s = splitCycles_loop s (indexOf s [lit CHR ''(''] 0) []"

text \<open>
  \<^verbatim>\<open>followCycles\<close> carries a one-character string or \<^verbatim>\<open>undefined\<close> (what
  \<^verbatim>\<open>getChar\<close> returned); \<^verbatim>\<open>indexOf\<close> searches for the text \<^verbatim>\<open>"undefined"\<close> in
  the latter case. \<^verbatim>\<open>str[k]\<close> is \<^verbatim>\<open>undefined\<close> past the end.
\<close>

definition searchString :: "jschar option \<Rightarrow> jsstring" where
  "searchString v = (case v of Some c \<Rightarrow> [c] | None \<Rightarrow> js ''undefined'')"

definition charAt :: "jsstring \<Rightarrow> int \<Rightarrow> jschar option" where
  "charAt s k = (if 0 \<le> k \<and> k < int (length s) then Some (s ! nat k) else None)"

definition follow_cycle :: "jsstring \<Rightarrow> jschar option \<Rightarrow> jschar option" where
  "follow_cycle cycle v =
     (let index = indexOf cycle (searchString v) 0 in
      if index \<ge> 0 then
        (if index < int (length cycle) - 1 then charAt cycle (index + 1) else charAt cycle 0)
      else v)"

primrec followCycles_loop :: "jsstring list \<Rightarrow> nat \<Rightarrow> jschar option \<Rightarrow> jschar option" where
  "followCycles_loop cycles 0 v = v"
| "followCycles_loop cycles (Suc i) v = followCycles_loop cycles i (follow_cycle (cycles ! i) v)"

definition followCycles :: "jsstring list \<Rightarrow> jschar option \<Rightarrow> jschar option" where
  "followCycles cycles char = followCycles_loop cycles (length cycles) char"

definition getHighestChar :: "jsstring list \<Rightarrow> int" where
  "getHighestChar cycles =
     fold (\<lambda>cycle highest. fold (\<lambda>c h. raise_to h (parseChar c)) cycle highest) cycles 0"

text \<open>
  \<^verbatim>\<open>parseChar(c)\<close> starts with \<^verbatim>\<open>c.charCodeAt(0)\<close>, which throws a \<^verbatim>\<open>TypeError\<close>
  when \<open>c\<close> is \<^verbatim>\<open>undefined\<close>. The optional argument \<open>n\<close> is \<open>None\<close> when the caller
  leaves it out.
\<close>

definition fromCycleString :: "jsstring \<Rightarrow> int option \<Rightarrow> result" where
  "fromCycleString s n =
     (let splits = splitCycles s;
          n' = (case n of None \<Rightarrow> getHighestChar splits | Some k \<Rightarrow> k);
          images = map (\<lambda>i. followCycles splits (getChar (Num i))) [0..n']
      in if list_ex (\<lambda>v. v = None) images then ThrewTypeError
         else Permutation (map (\<lambda>v. parseChar (the v)) images))"

definition fromString :: "jsstring \<Rightarrow> result" where
  "fromString s =
     (if indexOf s [lit CHR ''(''] 0 \<ge> 0 then fromCycleString s None
      else
        (let max_char = fold (\<lambda>c m. raise_to m (parseChar c)) s 0
         in Permutation
              (map (\<lambda>j. if j < int (length s) then parseChar (s ! nat j) else Num j)
                 [0..max_char])))"

section \<open>The cycles property and the cycle string\<close>

text \<open>The lazy getter \<^verbatim>\<open>cycles\<close> caches what \<^verbatim>\<open>getCycles(this)\<close> returned.\<close>

definition cycles :: "permutation \<Rightarrow> jsval list list option" where
  "cycles p = getCycles p"

definition toCycleString :: "permutation \<Rightarrow> jsstring option" where
  "toCycleString p =
     map_option
       (\<lambda>cs. concat (map (\<lambda>c. [lit CHR ''(''] @ join_numbers c @ [lit CHR '')'']) cs))
       (cycles p)"

section \<open>Notions used in the statements\<close>

text \<open>What the range check of \<^verbatim>\<open>validatePermutationArray\<close> lets through.\<close>

definition storable :: "jsval \<Rightarrow> bool" where
  "storable x = (case x of Num k \<Rightarrow> 0 \<le> k \<and> k \<le> 35 | Undefined \<Rightarrow> True)"

text \<open>
  \<open>accepted\<close>: what validation establishes of the stored values. \<open>permutes_domain\<close>: the
  stored values are the indices \<open>0, \<dots>, n - 1\<close> of the object in some order, the
  invariant the data model asks for.
\<close>

definition accepted :: "permutation \<Rightarrow> bool" where
  "accepted p \<longleftrightarrow> distinct (entries p) \<and> list_all storable (entries p)"

definition permutes_domain :: "permutation \<Rightarrow> bool" where
  "permutes_domain p \<longleftrightarrow>
     distinct (entries p) \<and> set (entries p) = set (map (\<lambda>i. Num (int i)) [0..<plength p])"

text \<open>The character of an index below 36.\<close>

definition encode :: "nat \<Rightarrow> jschar" where
  "encode x = the (getChar (Num (int x)))"

text \<open>
  The parenthesised groups of a string: for every \<^verbatim>\<open>'('\<close> that has a \<^verbatim>\<open>')'\<close> after it, the
  characters between it and the next \<^verbatim>\<open>')'\<close>; the groups of fewer than two characters
  are dropped.
\<close>

fun spec_groups :: "jsstring \<Rightarrow> jsstring list" where
  "spec_groups [] = []"
| "spec_groups (c # rest) =
     (if c = lit CHR ''('' \<and> lit CHR '')'' \<in> set rest
         \<and> 2 \<le> length (takeWhile (\<lambda>x. x \<noteq> lit CHR '')'') rest)
      then [takeWhile (\<lambda>x. x \<noteq> lit CHR '')'') rest] else [])
     @ spec_groups rest"

text \<open>
  Within a cycle a character goes to the character after its (first) occurrence, the last
  one to the first; a character that does not occur stays. The cycles are applied in
  reverse order of appearance.
\<close>

definition spec_next :: "jsstring \<Rightarrow> jschar \<Rightarrow> jschar" where
  "spec_next cycle c =
     (if c \<in> set cycle then
        (let k = length (takeWhile (\<lambda>x. x \<noteq> c) cycle)
         in if Suc k < length cycle then cycle ! Suc k else cycle ! 0)
      else c)"

definition spec_image :: "jsstring list \<Rightarrow> int \<Rightarrow> jsval" where
  "spec_image groups i = parseChar (fold spec_next (rev groups) (encode (nat i)))"

text \<open>The highest integer decoded from a character of a group, 0 when there is none.\<close>

definition decoded :: "jsstring \<Rightarrow> int list" where
  "decoded cs = concat (map (\<lambda>c. case parseChar c of Num k \<Rightarrow> [k] | Undefined \<Rightarrow> []) cs)"

definition spec_highest :: "jsstring list \<Rightarrow> int" where
  "spec_highest groups = Max (set (0 # decoded (concat groups)))"

text \<open>
  \<open>img p k\<close> is the image \<^verbatim>\<open>perm[k]\<close> of the index \<open>k\<close> as a natural number (an index
  that holds no integer stays where it is). \<open>orbit_list f c\<close>: the list \<open>c\<close> starts at
  its smallest member and lists the orbit of that member in application order, the last
  member going back to the first.
\<close>

definition img :: "permutation \<Rightarrow> nat \<Rightarrow> nat" where
  "img p k = (case getProp p (Num (int k)) of Num v \<Rightarrow> nat v | Undefined \<Rightarrow> k)"

definition orbit_list :: "(nat \<Rightarrow> nat) \<Rightarrow> nat list \<Rightarrow> bool" where
  "orbit_list f c \<longleftrightarrow>
     c \<noteq> [] \<and> (\<forall>k<length c. c ! k = (f ^^ k) (hd c)) \<and> f (last c) = hd c \<and>
     (\<forall>x\<in>set c. hd c \<le> x)"

definition idx :: "nat \<Rightarrow> jsval" where
  "idx k = Num (int k)"

text \<open>
  What holds of \<^verbatim>\<open>already_used\<close> and \<^verbatim>\<open>cycles\<close> when the scan of \<^verbatim>\<open>getCycles\<close>
  reaches index \<open>i\<close>.
\<close>

definition scan_inv :: "permutation \<Rightarrow> nat \<Rightarrow> (jsval \<rightharpoonup> bool) \<Rightarrow> nat list list \<Rightarrow> bool" where
  "scan_inv p i used cs \<longleftrightarrow>
     dom used = idx ` set (concat cs) \<and>
     (\<forall>c\<in>set cs. orbit_list (img p) c \<and> hd c < i) \<and>
     distinct (concat cs) \<and>
     (\<forall>x\<in>set (concat cs). x < plength p \<and> img p x \<noteq> x) \<and>
     (\<forall>x<i. img p x \<noteq> x \<longrightarrow> x \<in> set (concat cs)) \<and>
     (\<forall>x. img p x \<in> set (concat cs) \<longrightarrow> x \<in> set (concat cs)) \<and>
     sorted_wrt (<) (map hd cs)"

section \<open>Validation and construction\<close>

lemma fold_count_entry:
  "fold (\<lambda>x c. count_entry c x) arr c =
     (\<lambda>k. if count_list arr k = 0 then c k
          else Some (count_list arr k + (case c k of None \<Rightarrow> 0 | Some n \<Rightarrow> n)))"
proof (induction arr arbitrary: c)
  case Nil
  show ?case by simp
next
  case (Cons a arr)
  show ?case
    unfolding fold_simps Cons.IH
    by (rule ext) (simp add: count_entry_def Let_def split: option.splits)
qed

lemma count_list_ge2_iff: "(\<exists>k\<in>set xs. 2 \<le> count_list xs k) \<longleftrightarrow> \<not> distinct xs"
proof (induction xs)
  case Nil
  show ?case by simp
next
  case (Cons a xs)
  have a: "2 \<le> Suc (count_list xs a) \<longleftrightarrow> a \<in> set xs"
    using count_list_0_iff[of xs a] by auto
  show ?case using Cons.IH a by auto
qed

lemma hasDuplicates_iff: "hasDuplicates arr \<longleftrightarrow> \<not> distinct arr"
proof -
  have "hasDuplicates arr \<longleftrightarrow> (\<exists>k\<in>set arr. 2 \<le> count_list arr k)"
    unfolding hasDuplicates_def Let_def fold_count_entry list_ex_iff
    by (auto simp: count_list_0_iff)
  then show ?thesis by (simp add: count_list_ge2_iff)
qed

lemma validatePermutationArray_iff:
  "validatePermutationArray arr \<longleftrightarrow> distinct arr \<and> (\<forall>x\<in>set arr. storable x)"
proof -
  have "\<not> (js_gt x MAX_ALLOWED_PERMUTATION_INDEX \<or> js_lt x PERMUTATION_INDEX) \<longleftrightarrow> storable x" for x
    by (cases x) (auto simp: storable_def MAX_ALLOWED_PERMUTATION_INDEX_def PERMUTATION_INDEX_def)
  then show ?thesis
    by (simp add: validatePermutationArray_def hasDuplicates_iff list_all_iff)
qed

lemma Permutation_Constructed_iff:
  "Permutation arr = Constructed p \<longleftrightarrow> validatePermutationArray arr \<and> p = \<lparr>entries = arr\<rparr>"
  by (auto simp: Permutation_def)

lemma at_nth: "i < plength p \<Longrightarrow> at p (int i) = entries p ! i"
  by (simp add: at_def getProp_def PERMUTATION_INDEX_def)

text \<open>
  C1: \<^verbatim>\<open>new Permutation(v)\<close> on an integer array \<open>v\<close> leaves the object uninitialised
  when \<open>v\<close> has a duplicate or an entry outside \<open>[0, 35]\<close>; when the entries are
  distinct and all in \<open>[0, 35]\<close> it builds a Permutation of length \<open>v.length\<close> with
  \<open>at(i) = v[i]\<close> for every index \<open>i\<close> below the length.
\<close>

theorem C1_construction:
  "(\<not> distinct v \<or> (\<exists>x\<in>set v. x < 0 \<or> 35 < x) \<longrightarrow> Permutation (map Num v) = Invalid) \<and>
   (distinct v \<and> (\<forall>x\<in>set v. 0 \<le> x \<and> x \<le> 35) \<longrightarrow>
      (\<exists>p. Permutation (map Num v) = Constructed p \<and> plength p = length v \<and>
           (\<forall>i<length v. at p (int i) = Num (v ! i))))"
proof -
  have inj: "distinct (map Num v) \<longleftrightarrow> distinct v"
    by (simp add: distinct_map inj_on_def)
  have val: "validatePermutationArray (map Num v) \<longleftrightarrow> distinct v \<and> (\<forall>x\<in>set v. 0 \<le> x \<and> x \<le> 35)"
    unfolding validatePermutationArray_iff inj by (simp add: storable_def)
  have bad: "Permutation (map Num v) = Invalid"
    if "\<not> distinct v \<or> (\<exists>x\<in>set v. x < 0 \<or> 35 < x)"
    using that val by (auto simp: Permutation_def)
  have good: "\<exists>p. Permutation (map Num v) = Constructed p \<and> plength p = length v \<and>
           (\<forall>i<length v. at p (int i) = Num (v ! i))"
    if "distinct v \<and> (\<forall>x\<in>set v. 0 \<le> x \<and> x \<le> 35)"
  proof -
    from that val have "Permutation (map Num v) = Constructed \<lparr>entries = map Num v\<rparr>"
      by (simp add: Permutation_def)
    moreover have "plength \<lparr>entries = map Num v\<rparr> = length v" by (simp add: plength_def)
    moreover have "\<forall>i<length v. at \<lparr>entries = map Num v\<rparr> (int i) = Num (v ! i)"
      by (simp add: at_nth plength_def)
    ultimately show ?thesis by blast
  qed
  from bad good show ?thesis by blast
qed

theorem C1_construction_witness:
  "Permutation (map Num [0, 0]) = Invalid \<and> Permutation (map Num [0, 36]) = Invalid \<and>
   (\<exists>p. Permutation (map Num [1, 2, 0]) = Constructed p \<and> plength p = 3 \<and>
        at p 0 = Num 1 \<and> at p 1 = Num 2 \<and> at p 2 = Num 0)"
proof -
  have a: "Permutation (map Num [0, 0]) = Invalid"
    using C1_construction[of "[0, 0]"] by simp
  have b: "Permutation (map Num [0, 36]) = Invalid"
    using C1_construction[of "[0, 36]"] by simp
  have "\<exists>p. Permutation (map Num [1, 2, 0]) = Constructed p \<and> plength p = length [1, 2, 0 :: int] \<and>
           (\<forall>i<length [1, 2, 0 :: int]. at p (int i) = Num ([1, 2, 0] ! i))"
    using C1_construction[of "[1, 2, 0]"] by simp
  then obtain p where p: "Permutation (map Num [1, 2, 0]) = Constructed p" "plength p = 3"
     and all: "\<forall>i<3. at p (int i) = Num ([1, 2, 0] ! i)" by auto
  from all[rule_format, of 0] all[rule_format, of 1] all[rule_format, of 2]
  have "at p 0 = Num 1 \<and> at p 1 = Num 2 \<and> at p 2 = Num 0" by simp
  with a b p show ?thesis by blast
qed

text \<open>
  C10: \<^verbatim>\<open>fromString("")\<close> does not fail and does not give a Permutation of length 0:
  it gives the Permutation of length 1 over the array \<open>[0]\<close>, the identity on \<open>{0}\<close>.
\<close>

theorem C10_fromString_empty:
  "fromString [] = Constructed \<lparr>entries = [Num 0]\<rparr> \<and>
   plength \<lparr>entries = [Num 0]\<rparr> = 1 \<and> at \<lparr>entries = [Num 0]\<rparr> 0 = Num 0 \<and>
   getIdentity 1 = Constructed \<lparr>entries = [Num 0]\<rparr>"
proof -
  have v: "validatePermutationArray [Num 0]"
    by (simp add: validatePermutationArray_iff storable_def)
  have "indexOf [] [lit CHR ''(''] 0 = - 1" by (simp add: indexOf_def)
  then have "fromString [] = Permutation [Num 0]"
    by (simp add: fromString_def upto.simps)
  moreover have "getIdentity 1 = Permutation [Num 0]"
    by (simp add: getIdentity_def fromFunction_def upto.simps PERMUTATION_INDEX_def)
  ultimately show ?thesis using v
    by (simp add: Permutation_def plength_def at_def getProp_def PERMUTATION_INDEX_def)
qed

section \<open>The character codec\<close>

lemma char_codes: "C0 = 48" "C9 = 57" "CA = 65" "CZ = 90"
  by (simp_all add: C0_def C9_def CA_def CZ_def lit_def fromCharCode_def charCodeAt0_def)

lemma charCodeAt0_fromCharCode:
  "0 \<le> k \<Longrightarrow> k < 65536 \<Longrightarrow> charCodeAt0 (fromCharCode k) = k"
  by (simp add: charCodeAt0_def fromCharCode_def uint_word_of_int take_bit_int_eq_self)

lemma fromCharCode_charCodeAt0: "fromCharCode (charCodeAt0 c) = c"
  by (simp add: charCodeAt0_def fromCharCode_def)

lemma getChar_Num:
  "getChar (Num k) =
     (if 0 \<le> k \<and> k \<le> 9 then Some (fromCharCode (48 + k))
      else if k \<le> 35 then Some (fromCharCode (55 + k)) else None)"
  by (simp add: getChar_def char_codes MAX_ALLOWED_PERMUTATION_INDEX_def)

lemma getChar_Undefined: "getChar Undefined = None"
  by (simp add: getChar_def)

lemma parseChar_code:
  "parseChar c =
     (if 48 \<le> charCodeAt0 c \<and> charCodeAt0 c \<le> 57 then Num (charCodeAt0 c - 48)
      else if 65 \<le> charCodeAt0 c \<and> charCodeAt0 c \<le> 90 then Num (charCodeAt0 c - 55)
      else Undefined)"
  by (simp add: parseChar_def Let_def char_codes)

lemma parseChar_getChar:
  assumes "0 \<le> k" "k \<le> 35"
  shows "\<exists>c. getChar (Num k) = Some c \<and> parseChar c = Num k"
proof (cases "k \<le> 9")
  case True
  with assms show ?thesis
    by (simp add: getChar_Num parseChar_code charCodeAt0_fromCharCode)
next
  case False
  with assms show ?thesis
    by (simp add: getChar_Num parseChar_code charCodeAt0_fromCharCode)
qed

lemma getChar_parseChar:
  assumes "parseChar c = Num k"
  shows "0 \<le> k \<and> k \<le> 35 \<and> getChar (Num k) = Some c"
proof -
  consider (digit) "48 \<le> charCodeAt0 c" "charCodeAt0 c \<le> 57" "k = charCodeAt0 c - 48"
    | (letter) "65 \<le> charCodeAt0 c" "charCodeAt0 c \<le> 90" "k = charCodeAt0 c - 55"
    using assms by (auto simp: parseChar_code split: if_splits)
  then show ?thesis
  proof cases
    case digit
    then have "getChar (Num k) = Some (fromCharCode (charCodeAt0 c))"
      by (simp add: getChar_Num)
    with digit show ?thesis by (simp add: fromCharCode_charCodeAt0)
  next
    case letter
    then have "getChar (Num k) = Some (fromCharCode (charCodeAt0 c))"
      by (simp add: getChar_Num)
    with letter show ?thesis by (simp add: fromCharCode_charCodeAt0)
  qed
qed

text \<open>
  The codec on its documented domain: the two functions are inverse to each other between
  \<open>0..35\<close> and the characters \<^verbatim>\<open>'0'-'9'\<close>, \<^verbatim>\<open>'A'-'Z'\<close>; \<^verbatim>\<open>parseChar\<close> answers
  \<^verbatim>\<open>undefined\<close> exactly outside these characters and \<^verbatim>\<open>getChar\<close> answers
  \<^verbatim>\<open>undefined\<close> above 35.
\<close>

lemma codec_on_domain:
  "0 \<le> k \<and> k \<le> 35 \<longrightarrow> (\<exists>c. getChar (Num k) = Some c \<and> parseChar c = Num k)"
  "parseChar c = Num k \<longrightarrow> 0 \<le> k \<and> k \<le> 35 \<and> getChar (Num k) = Some c"
  "parseChar c = Undefined \<longleftrightarrow>
      \<not> (48 \<le> charCodeAt0 c \<and> charCodeAt0 c \<le> 57) \<and> \<not> (65 \<le> charCodeAt0 c \<and> charCodeAt0 c \<le> 90)"
  "35 < k \<longrightarrow> getChar (Num k) = None"
proof -
  show "0 \<le> k \<and> k \<le> 35 \<longrightarrow> (\<exists>c. getChar (Num k) = Some c \<and> parseChar c = Num k)"
    using parseChar_getChar by blast
  show "parseChar c = Num k \<longrightarrow> 0 \<le> k \<and> k \<le> 35 \<and> getChar (Num k) = Some c"
    using getChar_parseChar by blast
  show "parseChar c = Undefined \<longleftrightarrow>
      \<not> (48 \<le> charCodeAt0 c \<and> charCodeAt0 c \<le> 57) \<and> \<not> (65 \<le> charCodeAt0 c \<and> charCodeAt0 c \<le> 90)"
    by (simp add: parseChar_code)
  show "35 < k \<longrightarrow> getChar (Num k) = None"
    by (simp add: getChar_Num)
qed

text \<open>
  C8: the codec is a bijection between \<open>0..35\<close> and \<^verbatim>\<open>'0'-'9'\<close>, \<^verbatim>\<open>'A'-'Z'\<close>, and
  each function fails exactly outside its domain. The second branch of \<^verbatim>\<open>getChar\<close>
  tests only \<^verbatim>\<open>i <= 35\<close>, so a negative integer is answered with a character:
  \<^verbatim>\<open>getChar(-1)\<close> is \<^verbatim>\<open>'6'\<close>, which \<^verbatim>\<open>parseChar\<close> reads as 6.
\<close>

theorem C8_getChar_negative:
  "getChar (Num (- 1)) = Some (lit CHR ''6'') \<and> parseChar (lit CHR ''6'') = Num 6"
  by (simp add: getChar_Num parseChar_code lit_def charCodeAt0_fromCharCode)

text \<open>
  C6: \<^verbatim>\<open>equals\<close> is to hold exactly for two Permutations of the same length with the
  same image at every index. The loop of \<^verbatim>\<open>Permutation.equals\<close> is bounded by
  \<^verbatim>\<open>this.length\<close> of the constructor function, which is 1, so only index 0 is compared:
  \<open>[0,1,2]\<close> equals \<open>[0,2,1]\<close>, and \<open>[0]\<close> equals \<open>[0,1]\<close>.
\<close>

theorem C6_equals_compares_index_0:
  "Permutation [Num 0, Num 1, Num 2] = Constructed \<lparr>entries = [Num 0, Num 1, Num 2]\<rparr> \<and>
   Permutation [Num 0, Num 2, Num 1] = Constructed \<lparr>entries = [Num 0, Num 2, Num 1]\<rparr> \<and>
   equals \<lparr>entries = [Num 0, Num 1, Num 2]\<rparr> \<lparr>entries = [Num 0, Num 2, Num 1]\<rparr> \<and>
   at \<lparr>entries = [Num 0, Num 1, Num 2]\<rparr> 1 \<noteq> at \<lparr>entries = [Num 0, Num 2, Num 1]\<rparr> 1 \<and>
   Permutation [Num 0] = Constructed \<lparr>entries = [Num 0]\<rparr> \<and>
   Permutation [Num 0, Num 1] = Constructed \<lparr>entries = [Num 0, Num 1]\<rparr> \<and>
   equals \<lparr>entries = [Num 0]\<rparr> \<lparr>entries = [Num 0, Num 1]\<rparr> \<and>
   plength \<lparr>entries = [Num 0]\<rparr> \<noteq> plength \<lparr>entries = [Num 0, Num 1]\<rparr>"
  by (simp add: Permutation_def validatePermutationArray_iff storable_def equals_def
      Permutation_equals_def Permutation_length_def upto.simps at_def getProp_def
      PERMUTATION_INDEX_def plength_def)

lemma equals_iff: "equals left right \<longleftrightarrow> at left 0 = at right 0"
  by (simp add: equals_def Permutation_equals_def Permutation_length_def upto.simps)

text \<open>
  C7: \<^verbatim>\<open>toCycleString\<close> is to write every element of a cycle as its single character.
  It joins the numbers of the cycle instead, which writes them in decimal: the
  transposition of 0 and 10 on eleven points has the cycle \<open>[0, 10]\<close> and is written
  \<^verbatim>\<open>"(010)"\<close>, where the characters of 0 and 10 are \<^verbatim>\<open>'0'\<close> and \<^verbatim>\<open>'A'\<close>.
\<close>

theorem C7_toCycleString_decimal:
  "Permutation (map Num [10, 1, 2, 3, 4, 5, 6, 7, 8, 9, 0]) =
     Constructed \<lparr>entries = map Num [10, 1, 2, 3, 4, 5, 6, 7, 8, 9, 0]\<rparr> \<and>
   cycles \<lparr>entries = map Num [10, 1, 2, 3, 4, 5, 6, 7, 8, 9, 0]\<rparr> = Some [[Num 0, Num 10]] \<and>
   toCycleString \<lparr>entries = map Num [10, 1, 2, 3, 4, 5, 6, 7, 8, 9, 0]\<rparr> = Some (js ''(010)'') \<and>
   getChar (Num 0) = Some (lit CHR ''0'') \<and> getChar (Num 10) = Some (lit CHR ''A'')"
proof -
  have "Permutation (map Num [10, 1, 2, 3, 4, 5, 6, 7, 8, 9, 0]) =
     Constructed \<lparr>entries = map Num [10, 1, 2, 3, 4, 5, 6, 7, 8, 9, 0]\<rparr>"
    by (simp add: Permutation_def validatePermutationArray_iff storable_def)
  moreover have "cycles \<lparr>entries = map Num [10, 1, 2, 3, 4, 5, 6, 7, 8, 9, 0]\<rparr> = Some [[Num 0, Num 10]]"
    by code_simp
  moreover have "toCycleString \<lparr>entries = map Num [10, 1, 2, 3, 4, 5, 6, 7, 8, 9, 0]\<rparr> = Some (js ''(010)'')"
    by code_simp
  moreover have "getChar (Num 0) = Some (lit CHR ''0'')" "getChar (Num 10) = Some (lit CHR ''A'')"
    by (simp_all add: getChar_Num lit_def)
  ultimately show ?thesis by simp
qed

section \<open>Stored values\<close>

lemma Permutation_accepted: "Permutation arr = Constructed p \<Longrightarrow> accepted p"
  by (auto simp: Permutation_Constructed_iff validatePermutationArray_iff accepted_def list_all_iff)

lemma Permutation_entries: "Permutation arr = Constructed p \<Longrightarrow> entries p = arr"
  by (auto simp: Permutation_Constructed_iff)

lemma upto_as_upt: "[0..int n - 1] = map int [0..<n]"
proof (induction n)
  case 0
  show ?case by simp
next
  case (Suc n)
  have "[0..int (Suc n) - 1] = [0..int n - 1] @ [int n]"
    using upto_rec2[of 0 "int n"] by simp
  with Suc show ?case by simp
qed

lemma upto_nat_as_upt: "[0..m] = map int [0..<nat (m + 1)]"
proof (cases "0 \<le> m + 1")
  case True
  then have "m = int (nat (m + 1)) - 1" by simp
  then show ?thesis using upto_as_upt[of "nat (m + 1)"] by simp
next
  case False
  then show ?thesis by simp
qed

lemma getProp_index: "i < plength p \<Longrightarrow> getProp p (Num (int i)) = entries p ! i"
  by (simp add: getProp_def PERMUTATION_INDEX_def)

lemma getProp_outside: "\<not> (0 \<le> k \<and> k < int (plength p)) \<Longrightarrow> getProp p (Num k) = Undefined"
  by (auto simp: getProp_def PERMUTATION_INDEX_def)

lemma permutes_domainI:
  assumes "entries p = map (\<lambda>i. Num (int i)) xs" "distinct xs" "set xs = {0..<length xs}"
  shows "permutes_domain p"
proof -
  have "inj (\<lambda>i. Num (int i))" by (simp add: inj_on_def)
  then have "distinct (map (\<lambda>i. Num (int i)) xs)"
    using assms(2) by (simp add: distinct_map inj_on_def)
  moreover have "plength p = length xs" using assms(1) by (simp add: plength_def)
  ultimately show ?thesis using assms by (simp add: permutes_domain_def)
qed

lemma permutes_domainE:
  assumes "permutes_domain p"
  obtains xs where "entries p = map (\<lambda>i. Num (int i)) xs" "distinct xs"
    "set xs = {0..<length xs}" "length xs = plength p"
proof -
  define xs where "xs = map (\<lambda>v. case v of Num k \<Rightarrow> nat k | Undefined \<Rightarrow> 0) (entries p)"
  have st: "set (entries p) = (\<lambda>i. Num (int i)) ` {0..<plength p}"
    and dist: "distinct (entries p)"
    using assms by (simp_all add: permutes_domain_def)
  have rt: "Num (int (case v of Num k \<Rightarrow> nat k | Undefined \<Rightarrow> 0)) = v" if "v \<in> set (entries p)" for v
    using that st by auto
  have e: "entries p = map (\<lambda>i. Num (int i)) xs"
    unfolding xs_def map_map comp_def using rt by (simp add: map_idI)
  have len: "length xs = plength p" by (simp add: xs_def plength_def)
  have d: "distinct xs"
    using dist unfolding e by (simp add: distinct_map)
  have "(\<lambda>i. Num (int i)) ` set xs = (\<lambda>i. Num (int i)) ` {0..<plength p}"
    using st unfolding e by simp
  moreover have "inj (\<lambda>i. Num (int i))" by (simp add: inj_on_def)
  ultimately have "set xs = {0..<plength p}" by (simp add: inj_image_eq_iff)
  with e d len show ?thesis using that by simp
qed

lemma permutes_domain_valid_iff:
  assumes "permutes_domain p"
  shows "Permutation (entries p) = Constructed p \<longleftrightarrow> plength p \<le> 36"
proof -
  from assms obtain xs where xs: "entries p = map (\<lambda>i. Num (int i)) xs" "distinct xs"
    "set xs = {0..<length xs}" "length xs = plength p" by (rule permutes_domainE)
  have d: "distinct (entries p)" using assms by (simp add: permutes_domain_def)
  have "(\<forall>x\<in>set (entries p). storable x) \<longleftrightarrow> (\<forall>i<plength p. i \<le> 35)"
    unfolding xs(1) using xs(3,4) by (auto simp: storable_def)
  also have "\<dots> \<longleftrightarrow> plength p \<le> 36"
  proof
    assume a: "\<forall>i<plength p. i \<le> 35"
    show "plength p \<le> 36"
    proof (rule ccontr)
      assume "\<not> plength p \<le> 36"
      then have "36 < plength p" by simp
      with a show False by auto
    qed
  qed auto
  finally show ?thesis
    using d by (simp add: Permutation_Constructed_iff validatePermutationArray_iff)
qed



lemma eval_Permutation:
  "distinct arr \<Longrightarrow> list_all storable arr \<Longrightarrow> Permutation arr = Constructed \<lparr>entries = arr\<rparr>"
  "\<not> distinct arr \<Longrightarrow> Permutation arr = Invalid"
  by (simp_all add: Permutation_def validatePermutationArray_iff list_all_iff)



section \<open>Composition\<close>

lemma compose_lists:
  assumes xs: "entries this = map (\<lambda>i. Num (int i)) xs" "set xs = {0..<length xs}"
      and ys: "entries theta = map (\<lambda>i. Num (int i)) ys" "set ys = {0..<length ys}"
      and len: "length ys = length xs"
  shows "compose this theta = Permutation (map (\<lambda>i. Num (int i)) (map (nth xs) ys))"
proof -
  have n: "plength this = length xs" "plength theta = length xs"
    using xs(1) ys(1) len by (simp_all add: plength_def)
  have step: "getProp this (getProp theta (Num (int i))) = Num (int (xs ! (ys ! i)))"
    if "i < length xs" for i
  proof -
    have "ys ! i \<in> set ys" using that len by simp
    then have b: "ys ! i < length xs" using ys(2) len by simp
    have "getProp theta (Num (int i)) = Num (int (ys ! i))"
      using that len n by (simp add: getProp_index ys(1))
    moreover have "getProp this (Num (int (ys ! i))) = Num (int (xs ! (ys ! i)))"
      using b n by (simp add: getProp_index xs(1))
    ultimately show ?thesis by simp
  qed
  have "map (\<lambda>i. getProp this (getProp theta (Num i))) [0..int (plength this) - 1]
          = map (\<lambda>i. Num (int (xs ! (ys ! i)))) [0..<length xs]"
    unfolding upto_as_upt n using step by simp
  also have "\<dots> = map (\<lambda>j. Num (int (xs ! j))) (map (nth ys) [0..<length ys])"
    by (simp add: len)
  also have "\<dots> = map (\<lambda>i. Num (int i)) (map (nth xs) ys)"
    unfolding map_nth by simp
  finally show ?thesis
    by (simp add: compose_def n)
qed

lemma compose_permutations:
  "(plength theta \<noteq> plength this \<longrightarrow> compose this theta = ReturnedUndefined) \<and>
   (plength theta = plength this \<and>
    Permutation (entries this) = Constructed this \<and> Permutation (entries theta) = Constructed theta \<and>
    permutes_domain this \<and> permutes_domain theta \<longrightarrow>
      (\<exists>r. compose this theta = Constructed r \<and> plength r = plength this \<and> permutes_domain r \<and>
           (\<forall>i<plength this. \<exists>k. at theta (int i) = Num k \<and> at r (int i) = at this k)))"
proof (intro conjI impI)
  assume "plength theta \<noteq> plength this"
  then show "compose this theta = ReturnedUndefined" by (simp add: compose_def)
next
  assume a: "plength theta = plength this \<and>
    Permutation (entries this) = Constructed this \<and> Permutation (entries theta) = Constructed theta \<and>
    permutes_domain this \<and> permutes_domain theta"
  from a obtain xs where xs: "entries this = map (\<lambda>i. Num (int i)) xs" "distinct xs"
    "set xs = {0..<length xs}" "length xs = plength this"
    using permutes_domainE[of this] by metis
  from a obtain ys where ys: "entries theta = map (\<lambda>i. Num (int i)) ys" "distinct ys"
    "set ys = {0..<length ys}" "length ys = plength theta"
    using permutes_domainE[of theta] by metis
  have len: "length ys = length xs" using a xs(4) ys(4) by simp
  define r where "r = \<lparr>entries = map (\<lambda>i. Num (int i)) (map (nth xs) ys)\<rparr>"
  have rlen: "plength r = plength this" by (simp add: r_def plength_def len xs(4))
  have "inj_on (nth xs) (set ys)"
    using xs(2) ys(3) len by (intro inj_on_nth) auto
  then have d: "distinct (map (nth xs) ys)" using ys(2) by (simp add: distinct_map)
  have "set (map (nth xs) ys) = nth xs ` {0..<length xs}" using ys(3) len by simp
  also have "\<dots> = set xs" by (auto simp: set_conv_nth)
  finally have s: "set (map (nth xs) ys) = {0..<length (map (nth xs) ys)}"
    using xs(3) len by simp
  have pr: "permutes_domain r"
  proof (rule permutes_domainI)
    show "entries r = map (\<lambda>i. Num (int i)) (map (nth xs) ys)" by (simp add: r_def)
  qed (fact d s)+
  have "plength this \<le> 36" using a permutes_domain_valid_iff[of this] by simp
  then have valid: "Permutation (entries r) = Constructed r"
    using permutes_domain_valid_iff[OF pr] rlen by simp
  have c: "compose this theta = Constructed r"
    using compose_lists[OF xs(1,3) ys(1,3) len] valid by (simp add: r_def)
  have img: "\<exists>k. at theta (int i) = Num k \<and> at r (int i) = at this k" if "i < plength this" for i
  proof -
    have i: "i < length ys" "i < length xs" using that xs(4) len by simp_all
    have "ys ! i \<in> set ys" using i by simp
    then have b: "ys ! i < plength this" using ys(3) len xs(4) by simp
    have "at theta (int i) = Num (int (ys ! i))"
    proof -
      have "i < plength theta" using i ys(4) by simp
      then have "at theta (int i) = entries theta ! i" by (rule at_nth)
      then show ?thesis using i by (simp add: ys(1))
    qed
    moreover have "at r (int i) = Num (int (xs ! (ys ! i)))"
    proof -
      have "i < plength r" using that rlen by simp
      then have "at r (int i) = entries r ! i" by (rule at_nth)
      then show ?thesis using i by (simp add: r_def)
    qed
    moreover have "at this (int (ys ! i)) = Num (int (xs ! (ys ! i)))"
    proof -
      have "at this (int (ys ! i)) = entries this ! (ys ! i)" using b by (rule at_nth)
      then show ?thesis using b xs(4) by (simp add: xs(1))
    qed
    ultimately show ?thesis by simp
  qed
  from c rlen pr img
  show "\<exists>r. compose this theta = Constructed r \<and> plength r = plength this \<and> permutes_domain r \<and>
           (\<forall>i<plength this. \<exists>k. at theta (int i) = Num k \<and> at r (int i) = at this k)"
    by blast
qed

lemma getProp_cases: "getProp p key = Undefined \<or> getProp p key \<in> set (entries p)"
proof (cases key)
  case (Num k)
  show ?thesis
  proof (cases "0 \<le> k \<and> k < int (plength p)")
    case True
    then have "nat k < length (entries p)" unfolding plength_def by linarith
    then have "entries p ! nat k \<in> set (entries p)" by (rule nth_mem)
    then show ?thesis using True Num by (simp add: getProp_def PERMUTATION_INDEX_def)
  next
    case False
    then show ?thesis using Num by (simp add: getProp_outside)
  qed
next
  case Undefined
  then show ?thesis by (simp add: getProp_def)
qed

lemma compose_images:
  assumes "plength theta = plength this" "Permutation (entries this) = Constructed this"
  shows "compose this theta =
     (if distinct (map (\<lambda>i. getProp this (at theta (int i))) [0..<plength this])
      then Constructed \<lparr>entries = map (\<lambda>i. getProp this (at theta (int i))) [0..<plength this]\<rparr>
      else Invalid)"
proof -
  let ?arr = "map (\<lambda>i. getProp this (at theta (int i))) [0..<plength this]"
  have arr: "map (\<lambda>i. getProp this (getProp theta (Num i))) [0..int (plength this) - 1] = ?arr"
    unfolding upto_as_upt by (simp add: at_def PERMUTATION_INDEX_def comp_def)
  have c: "compose this theta = Permutation ?arr"
    using assms(1) arr by (simp add: compose_def)
  have "list_all storable (entries this)"
    using assms(2) Permutation_accepted[of "entries this" this] by (simp add: accepted_def)
  then have st: "\<forall>x\<in>set (entries this). storable x" by (simp add: list_all_iff)
  have "storable (getProp this key)" for key
    using getProp_cases[of this key] st by (auto simp: storable_def)
  then have "list_all storable ?arr" by (simp add: list_all_iff)
  then show ?thesis unfolding c by (simp add: eval_Permutation)
qed

lemma compose_theta_permutes:
  assumes len: "plength theta = plength this"
    and valid: "Permutation (entries this) = Constructed this"
    and pd: "permutes_domain theta"
  shows "distinct (map (\<lambda>i. getProp this (at theta (int i))) [0..<plength this])"
    and "i < plength this \<Longrightarrow> \<exists>k. at theta (int i) = Num k \<and> getProp this (at theta (int i)) = at this k"
proof -
  from pd obtain ys where ys: "entries theta = map (\<lambda>i. Num (int i)) ys" "distinct ys"
    "set ys = {0..<length ys}" "length ys = plength theta" by (rule permutes_domainE)
  have n: "length ys = plength this" using ys(4) len by simp
  have att: "at theta (int i) = Num (int (ys ! i))" if "i < plength this" for i
  proof -
    have "i < plength theta" using that len by simp
    then have "at theta (int i) = entries theta ! i" by (rule at_nth)
    then show ?thesis using that n by (simp add: ys(1))
  qed
  have inside: "ys ! i < plength this" if "i < plength this" for i
  proof -
    have "ys ! i \<in> set ys" using that n by simp
    then show ?thesis using ys(3) n by simp
  qed
  have look: "getProp this (at theta (int i)) = entries this ! (ys ! i)" if "i < plength this" for i
    using att[OF that] inside[OF that] by (simp add: getProp_index)
  show "\<exists>k. at theta (int i) = Num k \<and> getProp this (at theta (int i)) = at this k"
    if "i < plength this"
    using att[OF that] by (simp add: at_def PERMUTATION_INDEX_def)
  have "map (\<lambda>i. getProp this (at theta (int i))) [0..<plength this]
          = map (\<lambda>i. entries this ! (ys ! i)) [0..<length ys]"
    using look n by simp
  also have "\<dots> = map (nth (entries this)) (map (nth ys) [0..<length ys])" by simp
  also have "\<dots> = map (nth (entries this)) ys" unfolding map_nth ..
  finally have eq: "map (\<lambda>i. getProp this (at theta (int i))) [0..<plength this]
                      = map (nth (entries this)) ys" .
  have d: "distinct (entries this)"
    using valid Permutation_accepted[of "entries this" this] by (simp add: accepted_def)
  have "inj_on (nth (entries this)) (set ys)"
    using d ys(3) n by (intro inj_on_nth) (auto simp: plength_def)
  then show "distinct (map (\<lambda>i. getProp this (at theta (int i))) [0..<plength this])"
    unfolding eq using ys(2) by (simp add: distinct_map)
qed

text \<open>
  C5, as the code has it: \<^verbatim>\<open>this.compose(theta)\<close> returns \<^verbatim>\<open>undefined\<close> whenever the
  lengths differ. For two validly constructed Permutations of one length \<open>n\<close> it hands
  the array of the images \<open>this[theta(i)]\<close>, \<open>i < n\<close>, to the constructor, and the
  composite is constructed exactly when these images are pairwise distinct (it is
  rejected otherwise); the Permutation \<open>r\<close> it then returns has length \<open>n\<close> and
  \<open>r(i) = this[theta(i)]\<close> at every index. Whenever \<open>theta\<close> stores \<open>0, \<dots>, n - 1\<close> in
  some order the images are distinct, so the construction cannot fail, every
  \<open>theta(i)\<close> is an index and \<open>r(i) = this(theta(i))\<close>; if \<open>this\<close> stores
  \<open>0, \<dots>, n - 1\<close> as well, so does \<open>r\<close>.
\<close>

theorem C5_compose:
  "(plength theta \<noteq> plength this \<longrightarrow> compose this theta = ReturnedUndefined) \<and>
   (plength theta = plength this \<and>
    Permutation (entries this) = Constructed this \<and> Permutation (entries theta) = Constructed theta \<longrightarrow>
      (compose this theta = Invalid \<longleftrightarrow>
         \<not> distinct (map (\<lambda>i. getProp this (at theta (int i))) [0..<plength this])) \<and>
      (distinct (map (\<lambda>i. getProp this (at theta (int i))) [0..<plength this]) \<longrightarrow>
         (\<exists>r. compose this theta = Constructed r \<and> plength r = plength this \<and>
              (\<forall>i<plength this. at r (int i) = getProp this (at theta (int i))))) \<and>
      (permutes_domain theta \<longrightarrow>
         (\<exists>r. compose this theta = Constructed r \<and> plength r = plength this \<and>
              (\<forall>i<plength this. \<exists>k. at theta (int i) = Num k \<and> at r (int i) = at this k) \<and>
              (permutes_domain this \<longrightarrow> permutes_domain r))))"
proof (intro conjI impI)
  assume "plength theta \<noteq> plength this"
  then show "compose this theta = ReturnedUndefined" by (simp add: compose_def)
next
  let ?arr = "map (\<lambda>i. getProp this (at theta (int i))) [0..<plength this]"
  let ?r = "\<lparr>entries = ?arr\<rparr>"
  assume a: "plength theta = plength this \<and>
    Permutation (entries this) = Constructed this \<and> Permutation (entries theta) = Constructed theta"
  then have len: "plength theta = plength this"
    and vthis: "Permutation (entries this) = Constructed this"
    and vtheta: "Permutation (entries theta) = Constructed theta" by simp_all
  note c = compose_images[OF len vthis]
  have rlen: "plength ?r = plength this" by (simp add: plength_def)
  have rat: "at ?r (int i) = getProp this (at theta (int i))" if "i < plength this" for i
  proof -
    have "i < plength ?r" using that rlen by simp
    then have "at ?r (int i) = entries ?r ! i" by (rule at_nth)
    then show ?thesis using that by simp
  qed
  show "compose this theta = Invalid \<longleftrightarrow> \<not> distinct ?arr"
    unfolding c by simp
  show built: "\<exists>r. compose this theta = Constructed r \<and> plength r = plength this \<and>
              (\<forall>i<plength this. at r (int i) = getProp this (at theta (int i)))"
    if "distinct ?arr"
    using that c rlen rat by auto
  show "\<exists>r. compose this theta = Constructed r \<and> plength r = plength this \<and>
              (\<forall>i<plength this. \<exists>k. at theta (int i) = Num k \<and> at r (int i) = at this k) \<and>
              (permutes_domain this \<longrightarrow> permutes_domain r)"
    if pd: "permutes_domain theta"
  proof -
    have d: "distinct ?arr" using len vthis pd by (rule compose_theta_permutes(1))
    then have cr: "compose this theta = Constructed ?r" using c by simp
    have im: "\<exists>k. at theta (int i) = Num k \<and> at ?r (int i) = at this k" if "i < plength this" for i
      using compose_theta_permutes(2)[OF len vthis pd that] rat[OF that] by auto
    have "permutes_domain ?r" if "permutes_domain this"
    proof -
      from compose_permutations[of theta this] len vthis vtheta pd that
      obtain r' where "compose this theta = Constructed r'" "permutes_domain r'" by blast
      with cr show ?thesis by simp
    qed
    with cr rlen im show ?thesis by blast
  qed
qed

theorem C5_compose_witness:
  "compose \<lparr>entries = [Num 0]\<rparr> \<lparr>entries = [Num 0, Num 1]\<rparr> = ReturnedUndefined \<and>
   compose \<lparr>entries = [Num 5, Num 6]\<rparr> \<lparr>entries = [Num 7, Num 8]\<rparr> = Invalid \<and>
   (\<exists>r. compose \<lparr>entries = [Num 5, Num 6]\<rparr> \<lparr>entries = [Num 7, Num 0]\<rparr> = Constructed r \<and>
        plength r = 2 \<and> at r 0 = Undefined \<and> at r 1 = Num 5) \<and>
   (\<exists>r. compose \<lparr>entries = [Num 5, Num 6]\<rparr> \<lparr>entries = [Num 1, Num 0]\<rparr> = Constructed r \<and>
        plength r = 2 \<and> at r 0 = Num 6 \<and> at r 1 = Num 5) \<and>
   (\<exists>r. compose \<lparr>entries = [Num 1, Num 2, Num 0]\<rparr> \<lparr>entries = [Num 1, Num 0, Num 2]\<rparr>
          = Constructed r \<and>
        plength r = 3 \<and> permutes_domain r \<and> at r 0 = Num 2 \<and> at r 1 = Num 1 \<and> at r 2 = Num 0)"
proof -
  let ?a = "\<lparr>entries = [Num 1, Num 2, Num 0]\<rparr>" and ?b = "\<lparr>entries = [Num 1, Num 0, Num 2]\<rparr>"
  let ?u = "\<lparr>entries = [Num 5, Num 6]\<rparr>" and ?v = "\<lparr>entries = [Num 7, Num 8]\<rparr>"
  let ?w = "\<lparr>entries = [Num 7, Num 0]\<rparr>" and ?s = "\<lparr>entries = [Num 1, Num 0]\<rparr>"
  have 1: "compose \<lparr>entries = [Num 0]\<rparr> \<lparr>entries = [Num 0, Num 1]\<rparr> = ReturnedUndefined"
    using C5_compose[of "\<lparr>entries = [Num 0, Num 1]\<rparr>" "\<lparr>entries = [Num 0]\<rparr>", THEN conjunct1]
    by (simp add: plength_def)
  have valid: "Permutation (entries ?a) = Constructed ?a" "Permutation (entries ?b) = Constructed ?b"
    "Permutation (entries ?u) = Constructed ?u" "Permutation (entries ?v) = Constructed ?v"
    "Permutation (entries ?w) = Constructed ?w" "Permutation (entries ?s) = Constructed ?s"
    by (simp_all add: eval_Permutation storable_def)
  have len2: "plength ?v = plength ?u" "plength ?w = plength ?u" "plength ?s = plength ?u"
    "plength ?u = 2" and len3: "plength ?b = plength ?a" "plength ?a = 3"
    by (simp_all add: plength_def)
  have u2: "[0..<2] = [0, Suc 0]" by (simp add: upt_rec)
  have reads: "getProp ?u (at ?v 0) = Undefined" "getProp ?u (at ?v 1) = Undefined"
    "getProp ?u (at ?w 0) = Undefined" "getProp ?u (at ?w 1) = Num 5"
    "at ?s 0 = Num 1" "at ?s 1 = Num 0" "at ?u 0 = Num 5" "at ?u 1 = Num 6"
    "at ?b 0 = Num 1" "at ?b 1 = Num 0" "at ?b 2 = Num 2"
    "at ?a 1 = Num 2" "at ?a 0 = Num 1" "at ?a 2 = Num 0"
    by (simp_all add: at_def getProp_def PERMUTATION_INDEX_def plength_def)
  have pd: "permutes_domain ?s" "permutes_domain ?a" "permutes_domain ?b" by code_simp+
  note Tv = C5_compose[of ?v ?u, THEN conjunct2, THEN mp, OF conjI[OF len2(1) conjI[OF valid(3) valid(4)]]]
  have 2: "compose ?u ?v = Invalid"
    using Tv[THEN conjunct1] by (simp add: len2 u2 reads)
  note Tw = C5_compose[of ?w ?u, THEN conjunct2, THEN mp, OF conjI[OF len2(2) conjI[OF valid(3) valid(5)]]]
  have "distinct (map (\<lambda>i. getProp ?u (at ?w (int i))) [0..<plength ?u])"
    by (simp add: len2 u2 reads)
  from Tw[THEN conjunct2, THEN conjunct1, THEN mp, OF this]
  obtain r3 where r3: "compose ?u ?w = Constructed r3" "plength r3 = plength ?u"
    and i3: "\<forall>i<plength ?u. at r3 (int i) = getProp ?u (at ?w (int i))" by blast
  have 3: "\<exists>r. compose ?u ?w = Constructed r \<and> plength r = 2 \<and> at r 0 = Undefined \<and> at r 1 = Num 5"
    using r3 i3[rule_format, of 0] i3[rule_format, of 1] by (simp add: len2 reads)
  note Ts = C5_compose[of ?s ?u, THEN conjunct2, THEN mp, OF conjI[OF len2(3) conjI[OF valid(3) valid(6)]]]
  from Ts[THEN conjunct2, THEN conjunct2, THEN mp, OF pd(1)]
  obtain r4 where r4: "compose ?u ?s = Constructed r4" "plength r4 = plength ?u"
    and i4: "\<forall>i<plength ?u. \<exists>k. at ?s (int i) = Num k \<and> at r4 (int i) = at ?u k" by blast
  have 4: "\<exists>r. compose ?u ?s = Constructed r \<and> plength r = 2 \<and> at r 0 = Num 6 \<and> at r 1 = Num 5"
    using r4 i4[rule_format, of 0] i4[rule_format, of 1] by (auto simp: len2 reads)
  note Tb = C5_compose[of ?b ?a, THEN conjunct2, THEN mp, OF conjI[OF len3(1) conjI[OF valid(1) valid(2)]]]
  from Tb[THEN conjunct2, THEN conjunct2, THEN mp, OF pd(3)] pd(2)
  obtain r5 where r5: "compose ?a ?b = Constructed r5" "plength r5 = plength ?a" "permutes_domain r5"
    and i5: "\<forall>i<plength ?a. \<exists>k. at ?b (int i) = Num k \<and> at r5 (int i) = at ?a k" by blast
  have 5: "\<exists>r. compose ?a ?b = Constructed r \<and> plength r = 3 \<and> permutes_domain r \<and>
             at r 0 = Num 2 \<and> at r 1 = Num 1 \<and> at r 2 = Num 0"
    using r5 i5[rule_format, of 0] i5[rule_format, of 1] i5[rule_format, of 2]
    by (auto simp: len3 reads)
  from 1 2 3 4 5 show ?thesis by blast
qed

text \<open>
  \<open>[5, 6]\<close> and \<open>[7, 8]\<close> both pass validation and have the same length; every read
  \<open>this[theta[i]]\<close> is \<^verbatim>\<open>undefined\<close>, the array \<open>[undefined, undefined]\<close> has a duplicate,
  and the composite is not constructed.
\<close>

theorem C5_counterexample:
  "Permutation [Num 5, Num 6] = Constructed \<lparr>entries = [Num 5, Num 6]\<rparr> \<and>
   Permutation [Num 7, Num 8] = Constructed \<lparr>entries = [Num 7, Num 8]\<rparr> \<and>
   plength \<lparr>entries = [Num 7, Num 8]\<rparr> = plength \<lparr>entries = [Num 5, Num 6]\<rparr> \<and>
   compose \<lparr>entries = [Num 5, Num 6]\<rparr> \<lparr>entries = [Num 7, Num 8]\<rparr> = Invalid"
  by (simp add: eval_Permutation storable_def compose_def plength_def upto.simps getProp_def
      PERMUTATION_INDEX_def)

section \<open>The flat string\<close>

lemma find_from_single:
  "find_from xs [c] k =
     (if c \<in> set xs then int k + int (length (takeWhile (\<lambda>x. x \<noteq> c) xs)) else - 1)"
proof (induction xs arbitrary: k)
  case Nil
  show ?case by simp
next
  case (Cons x xs)
  show ?case
  proof (cases "x = c")
    case True
    then show ?thesis by simp
  next
    case False
    then have "take (Suc 0) (x # xs) \<noteq> [c]" by simp
    then show ?thesis using False Cons.IH[of "Suc k"] by simp
  qed
qed

lemma indexOf_single:
  "indexOf s [c] 0 = (if c \<in> set s then int (length (takeWhile (\<lambda>x. x \<noteq> c) s)) else - 1)"
  by (simp add: indexOf_def find_from_single)

lemma getChar_encode: "x \<le> 35 \<Longrightarrow> getChar (Num (int x)) = Some (encode x)"
  using parseChar_getChar[of "int x"] by (auto simp: encode_def)

lemma parseChar_encode: "x \<le> 35 \<Longrightarrow> parseChar (encode x) = Num (int x)"
  using parseChar_getChar[of "int x"] by (auto simp: encode_def)

lemma parseChar_paren: "parseChar (lit CHR ''('') = Undefined" "parseChar (lit CHR '')'') = Undefined"
  by (simp_all add: parseChar_code lit_def charCodeAt0_fromCharCode)

lemma encode_not_paren: "x \<le> 35 \<Longrightarrow> encode x \<noteq> lit CHR ''(''"
  using parseChar_encode[of x] parseChar_paren by auto

lemma toString_encode:
  assumes "entries p = map (\<lambda>i. Num (int i)) xs" "\<forall>x\<in>set xs. x \<le> 35"
  shows "toString p = map encode xs"
proof -
  have n: "plength p = length xs" using assms(1) by (simp add: plength_def)
  have "map (\<lambda>i. getChar (getProp p (Num i))) [PERMUTATION_INDEX..int (plength p) + PERMUTATION_INDEX - 1]
      = map (\<lambda>i. getChar (getProp p (Num (int i)))) [0..<length xs]"
    by (simp add: PERMUTATION_INDEX_def upto_as_upt n comp_def)
  also have "\<dots> = map (\<lambda>i. Some (encode (xs ! i))) [0..<length xs]"
    using assms(2) n by (simp add: getProp_index assms(1) getChar_encode)
  also have "\<dots> = map (\<lambda>x. Some (encode x)) (map (nth xs) [0..<length xs])"
    by simp
  also have "\<dots> = map (\<lambda>x. Some (encode x)) xs"
    unfolding map_nth ..
  finally have "toString p = join_chars (map (\<lambda>x. Some (encode x)) xs)"
    by (simp add: toString_def)
  also have "\<dots> = map encode xs"
    unfolding join_chars_def by (induction xs) simp_all
  finally show ?thesis .
qed

lemma raise_to_Num: "raise_to m (Num k) = max m k"
  by (simp add: raise_to_def max_def)

lemma fold_raise_encode:
  "\<forall>x\<in>set xs. x \<le> 35 \<Longrightarrow>
     fold (\<lambda>c m. raise_to m (parseChar c)) (map encode xs) m = Max (insert m (int ` set xs))"
proof (induction xs arbitrary: m)
  case Nil
  show ?case by simp
next
  case (Cons x xs)
  have "fold (\<lambda>c m. raise_to m (parseChar c)) (map encode (x # xs)) m
          = Max (insert (max m (int x)) (int ` set xs))"
    using Cons by (simp add: parseChar_encode raise_to_Num)
  also have "\<dots> = Max (insert m (int ` set (x # xs)))"
    by (cases "set xs = {}") (simp_all add: max.assoc max.commute max.left_commute)
  finally show ?case .
qed

lemma Max_indices:
  assumes "0 < n"
  shows "Max (insert 0 (int ` {0..<n})) = int n - 1"
proof (rule Max_eqI)
  show "finite (insert 0 (int ` {0..<n}))" by simp
  show "y \<le> int n - 1" if "y \<in> insert 0 (int ` {0..<n})" for y
    using that assms by auto
  have "int (n - 1) \<in> int ` {0..<n}" using assms by (intro imageI) simp
  then show "int n - 1 \<in> insert 0 (int ` {0..<n})" using assms by (simp add: of_nat_diff)
qed

text \<open>
  C3, for Permutations whose stored values are the indices \<open>0, \<dots>, n - 1\<close> with
  \<open>n \<ge> 1\<close>: if \<open>p\<close> is validly constructed, of length at least 1, and stores
  \<open>0, \<dots>, n - 1\<close> in some order, then \<^verbatim>\<open>fromString(p.toString())\<close> succeeds and its
  result has the length of \<open>p\<close> and the same image at every index (it stores the same
  array).
\<close>

theorem C3_flat_string_round_trip:
  assumes "Permutation (entries p) = Constructed p" and "permutes_domain p" and "0 < plength p"
  shows "\<exists>q. fromString (toString p) = Constructed q \<and> plength q = plength p \<and>
             (\<forall>i<plength p. at q (int i) = at p (int i)) \<and> entries q = entries p"
proof -
  from assms(2) obtain xs where xs: "entries p = map (\<lambda>i. Num (int i)) xs" "distinct xs"
    "set xs = {0..<length xs}" "length xs = plength p" by (rule permutes_domainE)
  have "plength p \<le> 36" using assms(1,2) permutes_domain_valid_iff by simp
  then have small: "\<forall>x\<in>set xs. x \<le> 35" using xs(3,4) by auto
  have s: "toString p = map encode xs" using xs(1) small by (rule toString_encode)
  have "lit CHR ''('' \<notin> set (map encode xs)"
  proof
    assume "lit CHR ''('' \<in> set (map encode xs)"
    then obtain x where "x \<in> set xs" "encode x = lit CHR ''(''" by auto
    with small encode_not_paren[of x] show False by simp
  qed
  then have flat: "\<not> indexOf (toString p) [lit CHR ''(''] 0 \<ge> 0"
    unfolding s indexOf_single by simp
  have "fold (\<lambda>c m. raise_to m (parseChar c)) (toString p) 0 = Max (insert 0 (int ` set xs))"
    unfolding s by (rule fold_raise_encode[OF small])
  also have "\<dots> = Max (insert 0 (int ` {0..<length xs}))"
    by (simp only: xs(3)[symmetric])
  also have "\<dots> = int (length xs) - 1"
    using assms(3) xs(4) by (intro Max_indices) simp
  finally have mx: "fold (\<lambda>c m. raise_to m (parseChar c)) (toString p) 0 = int (length xs) - 1" .
  have "map (\<lambda>j. if j < int (length (toString p)) then parseChar (toString p ! nat j) else Num j)
          [0..int (length xs) - 1]
        = map (\<lambda>i. Num (int (xs ! i))) [0..<length xs]"
    unfolding upto_as_upt s using small by (simp add: parseChar_encode)
  also have "\<dots> = map (\<lambda>i. Num (int i)) (map (nth xs) [0..<length xs])" by simp
  also have "\<dots> = entries p" unfolding map_nth xs(1) ..
  finally have "fromString (toString p) = Permutation (entries p)"
    using flat mx by (simp add: fromString_def)
  with assms(1) show ?thesis by simp
qed

theorem C3_flat_string_round_trip_witness:
  "\<exists>q. fromString (toString \<lparr>entries = [Num 1, Num 2, Num 0]\<rparr>) = Constructed q \<and>
       plength q = 3 \<and> at q 0 = Num 1 \<and> at q 1 = Num 2 \<and> at q 2 = Num 0"
proof -
  let ?p = "\<lparr>entries = [Num 1, Num 2, Num 0]\<rparr>"
  have v: "Permutation (entries ?p) = Constructed ?p"
    by (simp add: eval_Permutation storable_def)
  have d: "permutes_domain ?p" by code_simp
  have n: "0 < plength ?p" "plength ?p = 3" by (simp_all add: plength_def)
  from C3_flat_string_round_trip[OF v d n(1)]
  obtain q where q: "fromString (toString ?p) = Constructed q" "plength q = plength ?p"
    "entries q = entries ?p" by blast
  have "at q 0 = Num 1 \<and> at q 1 = Num 2 \<and> at q 2 = Num 0"
    using q(2,3) by (simp add: at_def getProp_def PERMUTATION_INDEX_def plength_def)
  with q n show ?thesis by auto
qed

text \<open>
  The empty Permutation is validly constructed and prints as the empty string, which
  \<^verbatim>\<open>fromString\<close> reads as the Permutation over \<open>[0]\<close>, of length 1. The Permutation over
  \<open>[5]\<close> prints as \<^verbatim>\<open>"5"\<close>, which \<^verbatim>\<open>fromString\<close> pads to \<open>[5,1,2,3,4,5]\<close>: a
  duplicate, and nothing is constructed.
\<close>

theorem C3_counterexample:
  "Permutation [] = Constructed \<lparr>entries = []\<rparr> \<and>
   toString \<lparr>entries = []\<rparr> = js '''' \<and>
   fromString (toString \<lparr>entries = []\<rparr>) = Constructed \<lparr>entries = [Num 0]\<rparr> \<and>
   plength \<lparr>entries = [Num 0]\<rparr> \<noteq> plength \<lparr>entries = []\<rparr> \<and>
   Permutation [Num 5] = Constructed \<lparr>entries = [Num 5]\<rparr> \<and>
   toString \<lparr>entries = [Num 5]\<rparr> = js ''5'' \<and>
   fromString (toString \<lparr>entries = [Num 5]\<rparr>) = Invalid"
proof -
  have 1: "Permutation [] = Constructed \<lparr>entries = []\<rparr>"
    "Permutation [Num 5] = Constructed \<lparr>entries = [Num 5]\<rparr>"
    by (simp_all add: eval_Permutation storable_def)
  have 2: "toString \<lparr>entries = []\<rparr> = js ''''" "toString \<lparr>entries = [Num 5]\<rparr> = js ''5''"
    by code_simp+
  have 3: "fromString (js '''') = Constructed \<lparr>entries = [Num 0]\<rparr>"
    "fromString (js ''5'') = Invalid"
    by code_simp+
  have 4: "plength \<lparr>entries = [Num 0]\<rparr> \<noteq> plength \<lparr>entries = []\<rparr>"
    by (simp add: plength_def)
  from 1 2 3 4 show ?thesis by simp
qed

section \<open>The cycle string against its specification\<close>

lemma indexOf_single_from:
  assumes "k \<le> length s"
  shows "indexOf s [c] (int k) =
     (if c \<in> set (drop k s) then int k + int (length (takeWhile (\<lambda>x. x \<noteq> c) (drop k s))) else - 1)"
proof -
  have "nat (min (max (int k) 0) (int (length s))) = k" using assms by simp
  then show ?thesis by (simp add: indexOf_def find_from_single)
qed

lemma substring_take_drop:
  assumes "a \<le> b" "b \<le> length s"
  shows "substring s (int a) (int b) = take (b - a) (drop a s)"
  using assms by (simp add: substring_def Let_def min_def max_def)

lemma spec_groups_skip:
  "lit CHR ''('' \<notin> set pre \<Longrightarrow> spec_groups (pre @ xs) = spec_groups xs"
  by (induction pre) auto

lemma spec_groups_none: "lit CHR ''('' \<notin> set xs \<Longrightarrow> spec_groups xs = []"
  using spec_groups_skip[of xs "[]"] by simp

lemma take_length_takeWhile: "take (length (takeWhile P xs)) xs = takeWhile P xs"
  by (induction xs) simp_all

lemma paren_neq: "lit CHR ''('' \<noteq> lit CHR '')''"
  by (simp add: lit_def fromCharCode_def)

lemma splitCycles_loop_spec:
  "k \<le> length s \<Longrightarrow>
     splitCycles_loop s (indexOf s [lit CHR ''(''] (int k)) result = result @ spec_groups (drop k s)"
proof (induction "length s - k" arbitrary: k result rule: less_induct)
  case less
  let ?lp = "lit CHR ''(''" and ?rp = "lit CHR '')''"
  show ?case
  proof (cases "?lp \<in> set (drop k s)")
    case False
    then have "indexOf s [?lp] (int k) = - 1"
      using less.prems by (simp add: indexOf_single_from)
    then show ?thesis using False
      by (subst splitCycles_loop.simps) (simp add: spec_groups_none)
  next
    case True
    define pre where "pre = takeWhile (\<lambda>x. x \<noteq> ?lp) (drop k s)"
    define i where "i = k + length pre"
    have idx: "indexOf s [?lp] (int k) = int i"
      using True less.prems by (simp add: indexOf_single_from i_def pre_def)
    have split: "drop k s = pre @ dropWhile (\<lambda>x. x \<noteq> ?lp) (drop k s)"
      by (simp add: pre_def)
    have "dropWhile (\<lambda>x. x \<noteq> ?lp) (drop k s) \<noteq> []" using True by simp
    moreover have "hd (dropWhile (\<lambda>x. x \<noteq> ?lp) (drop k s)) = ?lp"
      using True hd_dropWhile[of "\<lambda>x. x \<noteq> ?lp" "drop k s"] by simp
    ultimately obtain rest where rest: "dropWhile (\<lambda>x. x \<noteq> ?lp) (drop k s) = ?lp # rest"
      by (cases "dropWhile (\<lambda>x. x \<noteq> ?lp) (drop k s)") auto
    have dk: "drop k s = pre @ ?lp # rest" using split rest by simp
    have "drop i s = drop (length pre) (drop k s)" by (simp add: i_def add.commute)
    then have di: "drop i s = ?lp # rest" using dk by simp
    then have ilt: "i < length s" by (metis drop_eq_Nil list.distinct(1) not_le)
    have di1: "drop (Suc i) s = rest" using di by (metis drop_Suc list.sel(3) tl_drop)
    have nopre: "?lp \<notin> set pre" unfolding pre_def using set_takeWhileD by fastforce
    have groups: "spec_groups (drop k s) = spec_groups (?lp # rest)"
      unfolding dk using nopre by (rule spec_groups_skip)
    define g where "g = takeWhile (\<lambda>x. x \<noteq> ?rp) rest"
    define j where "j = indexOf s [?rp] (int i)"
    have j: "j = (if ?rp \<in> set rest then int i + 1 + int (length g) else - 1)"
      unfolding j_def using ilt paren_neq by (simp add: indexOf_single_from di g_def)
    define result' where
      "result' = (if j > 0 \<and> j > int i + 2 then result @ [substring s (int i + 1) j] else result)"
    have sub: "substring s (int i + 1) j = g" if "?rp \<in> set rest"
    proof -
      have jn: "j = int (Suc i + length g)" using that j by simp
      have "length g \<le> length rest" unfolding g_def by (rule length_takeWhile_le)
      then have "Suc i + length g \<le> length s" using di1 ilt
        by (metis Suc_leI add_diff_cancel_left' le_add_diff_inverse length_drop nat_add_left_cancel_le)
      then have "substring s (int (Suc i)) (int (Suc i + length g)) = take (length g) (drop (Suc i) s)"
        using substring_take_drop[of "Suc i" "Suc i + length g" s] by simp
      also have "\<dots> = g" unfolding di1 g_def by (rule take_length_takeWhile)
      finally show ?thesis using jn by (simp add: add.commute)
    qed
    have res: "result' = result @ (if ?rp \<in> set rest \<and> 2 \<le> length g then [g] else [])"
      unfolding result'_def using j sub by auto
    have unfold: "splitCycles_loop s (int i) result
                    = splitCycles_loop s (indexOf s [?lp] (int i + 1)) result'"
      by (subst splitCycles_loop.simps) (simp add: Let_def j_def result'_def)
    have "length s - Suc i < length s - k" using ilt by (simp add: i_def)
    moreover have "Suc i \<le> length s" using ilt by simp
    ultimately have "splitCycles_loop s (indexOf s [?lp] (int (Suc i))) result'
                       = result' @ spec_groups (drop (Suc i) s)"
      by (rule less.hyps)
    then have "splitCycles_loop s (int i) result = result' @ spec_groups rest"
      using unfold di1 by (simp add: add.commute)
    also have "\<dots> = result @ spec_groups (?lp # rest)"
      unfolding res by (simp add: g_def)
    finally show ?thesis using idx groups by simp
  qed
qed

lemma splitCycles_spec: "splitCycles s = spec_groups s"
  using splitCycles_loop_spec[of 0 s "[]"] by (simp add: splitCycles_def)

lemma follow_cycle_Some: "follow_cycle cycle (Some c) = Some (spec_next cycle c)"
proof (cases "c \<in> set cycle")
  case False
  then show ?thesis
    by (simp add: follow_cycle_def searchString_def indexOf_single spec_next_def)
next
  case True
  define k where "k = length (takeWhile (\<lambda>x. x \<noteq> c) cycle)"
  have idx: "indexOf cycle (searchString (Some c)) 0 = int k"
    using True by (simp add: searchString_def indexOf_single k_def)
  have ne: "0 < length cycle" using True by (cases cycle) auto
  show ?thesis
  proof (cases "Suc k < length cycle")
    case True
    then have "int k < int (length cycle) - 1" by simp
    then have "follow_cycle cycle (Some c) = charAt cycle (int k + 1)"
      unfolding follow_cycle_def idx Let_def by simp
    also have "\<dots> = Some (cycle ! Suc k)"
      using True by (simp add: charAt_def nat_add_distrib)
    finally show ?thesis using \<open>c \<in> set cycle\<close> True by (simp add: spec_next_def k_def)
  next
    case False
    then have "\<not> int k < int (length cycle) - 1" by simp
    then have "follow_cycle cycle (Some c) = charAt cycle 0"
      unfolding follow_cycle_def idx Let_def by simp
    also have "\<dots> = Some (cycle ! 0)" using ne by (simp add: charAt_def)
    finally show ?thesis using \<open>c \<in> set cycle\<close> False by (simp add: spec_next_def k_def)
  qed
qed

lemma followCycles_loop_Some:
  "i \<le> length cs \<Longrightarrow>
     followCycles_loop cs i (Some c) = Some (fold spec_next (rev (take i cs)) c)"
proof (induction i arbitrary: c)
  case 0
  show ?case by simp
next
  case (Suc i)
  then have "take (Suc i) cs = take i cs @ [cs ! i]"
    by (simp add: take_Suc_conv_app_nth)
  then show ?case using Suc by (simp add: follow_cycle_Some)
qed

lemma followCycles_Some: "followCycles cs (Some c) = Some (fold spec_next (rev cs) c)"
  by (simp add: followCycles_def followCycles_loop_Some)

lemma decoded_Cons:
  "decoded (c # cs) = (case parseChar c of Num k \<Rightarrow> [k] | Undefined \<Rightarrow> []) @ decoded cs"
  by (simp add: decoded_def)

lemma decoded_range: "k \<in> set (decoded cs) \<Longrightarrow> 0 \<le> k \<and> k \<le> 35"
proof (induction cs)
  case Nil
  then show ?case by (simp add: decoded_def)
next
  case (Cons c cs)
  then show ?case
    using getChar_parseChar[of c] by (auto simp: decoded_Cons split: jsval.splits)
qed

lemma Max_insert_max:
  assumes "finite D"
  shows "Max (insert (max h k) D) = Max (insert h (insert k D))"
proof (cases "D = {}")
  case True
  then show ?thesis by simp
next
  case False
  then show ?thesis using assms by (simp add: max.assoc)
qed

lemma fold_raise_to:
  "fold (\<lambda>c h. raise_to h (parseChar c)) cs h = Max (set (h # decoded cs))"
proof (induction cs arbitrary: h)
  case Nil
  show ?case by (simp add: decoded_def)
next
  case (Cons c cs)
  show ?case
  proof (cases "parseChar c")
    case Undefined
    then show ?thesis using Cons.IH[of h] by (simp add: raise_to_def decoded_Cons)
  next
    case (Num k)
    have "fold (\<lambda>c h. raise_to h (parseChar c)) (c # cs) h = Max (insert (max h k) (set (decoded cs)))"
      using Num Cons.IH[of "max h k"] by (simp add: raise_to_Num)
    also have "\<dots> = Max (insert h (insert k (set (decoded cs))))"
      by (rule Max_insert_max) simp
    finally show ?thesis using Num by (simp add: decoded_Cons)
  qed
qed

lemma getHighestChar_fold:
  "fold (\<lambda>cycle highest. fold (\<lambda>c h. raise_to h (parseChar c)) cycle highest) cs h
     = fold (\<lambda>c h. raise_to h (parseChar c)) (concat cs) h"
  by (induction cs arbitrary: h) simp_all

lemma getHighestChar_spec: "getHighestChar cs = spec_highest cs"
  unfolding getHighestChar_def getHighestChar_fold fold_raise_to spec_highest_def ..

lemma spec_highest_range: "0 \<le> spec_highest cs \<and> spec_highest cs \<le> 35"
proof -
  let ?D = "set (0 # decoded (concat cs))"
  have fin: "finite ?D" and ne: "?D \<noteq> {}" by simp_all
  have "\<forall>k\<in>?D. k \<le> 35" using decoded_range by auto
  then have "Max ?D \<le> 35" using fin ne by (subst Max_le_iff) blast+
  moreover have "0 \<le> Max ?D" by (rule Max_ge) simp_all
  ultimately show ?thesis by (simp only: spec_highest_def)
qed

lemma fromCycleString_encodable:
  assumes "upper = (case n of None \<Rightarrow> spec_highest (spec_groups s) | Some k \<Rightarrow> k)" "upper \<le> 35"
  shows "fromCycleString s n = Permutation (map (spec_image (spec_groups s)) [0..upper])"
proof -
  have upper: "(case n of None \<Rightarrow> getHighestChar (spec_groups s) | Some k \<Rightarrow> k) = upper"
    using assms(1) by (cases n) (simp_all add: getHighestChar_spec)
  have img: "followCycles (spec_groups s) (getChar (Num i))
               = Some (fold spec_next (rev (spec_groups s)) (encode (nat i)))"
    if "i \<in> set [0..upper]" for i
  proof -
    have "0 \<le> i" "i \<le> 35" using that assms(2) by auto
    then have "getChar (Num i) = Some (encode (nat i))"
      using getChar_encode[of "nat i"] by simp
    then show ?thesis by (simp add: followCycles_Some)
  qed
  have m: "map (\<lambda>i. followCycles (spec_groups s) (getChar (Num i))) [0..upper]
             = map (\<lambda>i. Some (fold spec_next (rev (spec_groups s)) (encode (nat i)))) [0..upper]"
    using img by (intro map_cong) auto
  have si: "spec_image (spec_groups s) = (\<lambda>i. parseChar (fold spec_next (rev (spec_groups s)) (encode (nat i))))"
    by (rule ext) (simp add: spec_image_def)
  show ?thesis
    unfolding fromCycleString_def Let_def splitCycles_spec upper m si
    by (auto simp: list_ex_iff comp_def)
qed

lemma fromCycleString_Constructed:
  assumes "upper = (case n of None \<Rightarrow> spec_highest (spec_groups s) | Some k \<Rightarrow> k)"
      and "fromCycleString s n = Constructed p"
  shows "plength p = nat (upper + 1)"
    and "0 \<le> i \<Longrightarrow> i \<le> upper \<Longrightarrow> i \<le> 35 \<Longrightarrow> at p i = spec_image (spec_groups s) i"
proof -
  have upper: "(case n of None \<Rightarrow> getHighestChar (spec_groups s) | Some k \<Rightarrow> k) = upper"
    using assms(1) by (cases n) (simp_all add: getHighestChar_spec)
  define images where "images = map (\<lambda>i. followCycles (spec_groups s) (getChar (Num i))) [0..upper]"
  have f: "fromCycleString s n =
      (if list_ex (\<lambda>v. v = None) images then ThrewTypeError
       else Permutation (map (\<lambda>v. parseChar (the v)) images))"
    unfolding fromCycleString_def Let_def splitCycles_spec upper images_def ..
  with assms(2) have P: "Permutation (map (\<lambda>v. parseChar (the v)) images) = Constructed p"
    by (auto split: if_splits)
  then have e: "entries p = map (\<lambda>v. parseChar (the v)) images"
    by (rule Permutation_entries)
  have len: "length images = nat (upper + 1)" by (simp add: images_def)
  show pl: "plength p = nat (upper + 1)" using e len by (simp add: plength_def)
  show "at p i = spec_image (spec_groups s) i" if i: "0 \<le> i" "i \<le> upper" "i \<le> 35"
  proof -
    have lt: "nat i < plength p" using i pl by simp
    have "at p (int (nat i)) = entries p ! nat i" using lt by (rule at_nth)
    also have "\<dots> = parseChar (the (images ! nat i))"
      using lt pl len by (simp add: e)
    also have "images ! nat i = followCycles (spec_groups s) (getChar (Num i))"
      using i by (simp add: images_def)
    also have "\<dots> = Some (fold spec_next (rev (spec_groups s)) (encode (nat i)))"
      using i getChar_encode[of "nat i"] by (simp add: followCycles_Some)
    finally show ?thesis using i by (simp add: spec_image_def)
  qed
qed

text \<open>
  C4: \<^verbatim>\<open>fromCycleString(s, n)\<close> extracts exactly the parenthesised groups of \<open>s\<close> with at
  least two characters; an \<open>n\<close> that is not supplied is the highest integer decoded from
  a character of these groups; and the Permutation it builds has length \<open>n + 1\<close> and maps
  every index \<open>i\<close> of \<open>[0, n]\<close> (that has a character, \<open>i \<le> 35\<close>) to the image of its
  character under the groups applied in reverse order of appearance, each group sending a
  character to the next one and its last character to its first. For \<open>n \<le> 35\<close> the
  array handed to the constructor is exactly the array of these images.
\<close>

theorem C4_fromCycleString:
  "splitCycles s = spec_groups s \<and>
   fromCycleString s None = fromCycleString s (Some (spec_highest (spec_groups s))) \<and>
   (k \<le> 35 \<longrightarrow>
      fromCycleString s (Some k) = Permutation (map (spec_image (spec_groups s)) [0..k])) \<and>
   (fromCycleString s (Some k) = Constructed p \<longrightarrow>
      plength p = nat (k + 1) \<and>
      (\<forall>i. 0 \<le> i \<and> i \<le> k \<and> i \<le> 35 \<longrightarrow> at p i = spec_image (spec_groups s) i))"
proof (intro conjI impI allI)
  show "splitCycles s = spec_groups s" by (rule splitCycles_spec)
  show "fromCycleString s None = fromCycleString s (Some (spec_highest (spec_groups s)))"
    by (simp add: fromCycleString_def Let_def splitCycles_spec getHighestChar_spec)
  show "fromCycleString s (Some k) = Permutation (map (spec_image (spec_groups s)) [0..k])"
    if "k \<le> 35"
    using that by (intro fromCycleString_encodable) simp_all
  show "plength p = nat (k + 1)" if "fromCycleString s (Some k) = Constructed p"
    using fromCycleString_Constructed(1)[where upper=k and n="Some k" and s=s and p=p] that by simp
  show "at p i = spec_image (spec_groups s) i"
    if "fromCycleString s (Some k) = Constructed p" "0 \<le> i \<and> i \<le> k \<and> i \<le> 35" for i
    using fromCycleString_Constructed(2)[where upper=k and n="Some k" and s=s and p=p and i=i] that by simp
qed

theorem C4_fromCycleString_witness:
  "splitCycles (js ''(01)(2)(02)'') = [js ''01'', js ''02''] \<and>
   fromCycleString (js ''(01)(2)(02)'') None = fromCycleString (js ''(01)(2)(02)'') (Some 2) \<and>
   fromCycleString (js ''(01)(2)(02)'') (Some 2) = Permutation [Num 2, Num 0, Num 1] \<and>
   plength \<lparr>entries = [Num 2, Num 0, Num 1]\<rparr> = 3 \<and>
   at \<lparr>entries = [Num 2, Num 0, Num 1]\<rparr> 0 = Num 2 \<and>
   at \<lparr>entries = [Num 2, Num 0, Num 1]\<rparr> 1 = Num 0 \<and>
   at \<lparr>entries = [Num 2, Num 0, Num 1]\<rparr> 2 = Num 1"
proof -
  let ?s = "js ''(01)(2)(02)''" and ?p = "\<lparr>entries = [Num 2, Num 0, Num 1]\<rparr>"
  note T = C4_fromCycleString[of ?s 2 ?p]
  have g: "spec_groups ?s = [js ''01'', js ''02'']" by code_simp
  have h: "spec_highest [js ''01'', js ''02''] = 2" by code_simp
  have im: "spec_image [js ''01'', js ''02''] 0 = Num 2"
    "spec_image [js ''01'', js ''02''] 1 = Num 0"
    "spec_image [js ''01'', js ''02''] 2 = Num 1"
    by code_simp+
  have u: "[0..2::int] = [0, 1, 2]" by (simp add: upto.simps)
  have 1: "splitCycles ?s = [js ''01'', js ''02'']"
    using T[THEN conjunct1] g by simp
  have 2: "fromCycleString ?s None = fromCycleString ?s (Some 2)"
    using T[THEN conjunct2, THEN conjunct1] g h by simp
  have 3: "fromCycleString ?s (Some 2) = Permutation [Num 2, Num 0, Num 1]"
    using T[THEN conjunct2, THEN conjunct2, THEN conjunct1] g im u by simp
  then have c: "fromCycleString ?s (Some 2) = Constructed ?p"
    by (simp add: eval_Permutation storable_def)
  note R = T[THEN conjunct2, THEN conjunct2, THEN conjunct2, THEN mp, OF c]
  have 4: "plength ?p = 3" using R[THEN conjunct1] by simp
  have 5: "at ?p 0 = Num 2" "at ?p 1 = Num 0" "at ?p 2 = Num 1"
    using R[THEN conjunct2, rule_format, of 0] R[THEN conjunct2, rule_format, of 1]
      R[THEN conjunct2, rule_format, of 2] g im by simp_all
  from 1 2 3 4 5 show ?thesis by simp
qed

section \<open>Cycles\<close>

lemma cycle_loop_undefined:
  assumes "cycle_loop perm i j curr_cycle already_used = Some r"
  shows "\<not> (j = Undefined \<and> i \<noteq> Undefined)"
proof (rule cycle_loop.raw_induct
    [where P = "\<lambda>perm i j curr_cycle already_used r. \<not> (j = Undefined \<and> i \<noteq> Undefined)",
     OF _ assms])
  fix f perm i j curr_cycle r and already_used :: "jsval \<rightharpoonup> bool"
  assume IH: "\<And>perm i j curr_cycle already_used r.
           f perm i j curr_cycle already_used = Some r \<Longrightarrow> \<not> (j = Undefined \<and> i \<noteq> Undefined)"
    and body: "(if j \<noteq> i
         then f perm i (getProp perm j) (curr_cycle @ [j]) (already_used(j \<mapsto> True))
         else Some (curr_cycle, already_used)) = Some r"
  show "\<not> (j = Undefined \<and> i \<noteq> Undefined)"
  proof
    assume a: "j = Undefined \<and> i \<noteq> Undefined"
    then have "f perm i (getProp perm j) (curr_cycle @ [j]) (already_used(j \<mapsto> True)) = Some r"
      using body by auto
    from IH[OF this] a show False by (simp add: getProp_def)
  qed
qed

lemma cycle_loop_leaves_domain:
  assumes "i \<noteq> j" "i \<noteq> Undefined" "getProp perm j = Undefined"
  shows "cycle_loop perm i j curr_cycle already_used = None"
proof -
  have "cycle_loop perm i j curr_cycle already_used
          = cycle_loop perm i Undefined (curr_cycle @ [j]) (already_used(j \<mapsto> True))"
    using assms by (subst cycle_loop.simps) auto
  moreover have "cycle_loop perm i Undefined (curr_cycle @ [j]) (already_used(j \<mapsto> True)) = None"
    using cycle_loop_undefined[of perm i Undefined] assms(2) by (cases "cycle_loop perm i Undefined (curr_cycle @ [j]) (already_used(j \<mapsto> True))") auto
  ultimately show ?thesis by simp
qed

text \<open>
  The array \<open>[5]\<close> passes validation. Index 0 is not fixed, the walk from it reads
  \<^verbatim>\<open>perm[5]\<close>, which is \<^verbatim>\<open>undefined\<close>, and then \<^verbatim>\<open>perm[undefined]\<close> for ever: the
  getter never returns.
\<close>

theorem C2_counterexample:
  "Permutation [Num 5] = Constructed \<lparr>entries = [Num 5]\<rparr> \<and>
   cycles \<lparr>entries = [Num 5]\<rparr> = None"
proof -
  let ?p = "\<lparr>entries = [Num 5]\<rparr>"
  have g: "getProp ?p (Num 0) = Num 5" "getProp ?p (Num 5) = Undefined"
    by (simp_all add: getProp_def PERMUTATION_INDEX_def plength_def)
  have "cycle_loop ?p (Num 0) (Num 5) [Num 0] (Map.empty(Num 0 \<mapsto> True)) = None"
    by (rule cycle_loop_leaves_domain) (simp_all add: g)
  then have "getCycles ?p = None"
    by (simp add: getCycles_def plength_def g)
  then show ?thesis by (simp add: cycles_def eval_Permutation storable_def)
qed

lemma idx_inj: "idx a = idx b \<longleftrightarrow> a = b"
  by (simp add: idx_def)

lemma inj_idx: "inj idx"
  by (simp add: inj_on_def idx_def)

lemma img_inside:
  assumes "permutes_domain p" "k < plength p"
  shows "getProp p (idx k) = idx (img p k)" and "img p k < plength p"
proof -
  from assms(1) obtain xs where xs: "entries p = map (\<lambda>i. Num (int i)) xs" "distinct xs"
    "set xs = {0..<length xs}" "length xs = plength p" by (rule permutes_domainE)
  have g: "getProp p (Num (int k)) = Num (int (xs ! k))"
    using assms(2) xs(4) by (simp add: getProp_index xs(1))
  then have i: "img p k = xs ! k" by (simp add: img_def)
  show "getProp p (idx k) = idx (img p k)" using g i by (simp add: idx_def)
  have "xs ! k \<in> set xs" using assms(2) xs(4) by simp
  then show "img p k < plength p" using i xs(3,4) by simp
qed

lemma img_outside: "plength p \<le> k \<Longrightarrow> img p k = k"
  by (simp add: img_def getProp_outside)

lemma inj_img:
  assumes "permutes_domain p"
  shows "inj (img p)"
proof (rule injI)
  fix a b assume eq: "img p a = img p b"
  from assms obtain xs where xs: "entries p = map (\<lambda>i. Num (int i)) xs" "distinct xs"
    "set xs = {0..<length xs}" "length xs = plength p" by (rule permutes_domainE)
  have nth: "img p k = xs ! k" if "k < plength p" for k
    using that xs(4) by (simp add: img_def getProp_index xs(1))
  show "a = b"
  proof (cases "a < plength p")
    case a: True
    show ?thesis
    proof (cases "b < plength p")
      case True
      then have "xs ! a = xs ! b" using eq a nth by simp
      then show ?thesis using xs(2,4) a True by (simp add: nth_eq_iff_index_eq)
    next
      case False
      then have "img p b = b" by (simp add: img_outside)
      moreover have "img p a < plength p" using assms a by (rule img_inside)
      ultimately show ?thesis using eq False by simp
    qed
  next
    case a: False
    then have ia: "img p a = a" by (simp add: img_outside)
    show ?thesis
    proof (cases "b < plength p")
      case True
      have "img p b < plength p" using assms True by (rule img_inside)
      then show ?thesis using eq ia a by simp
    next
      case False
      then show ?thesis using eq ia by (simp add: img_outside)
    qed
  qed
qed

lemma funpow_img_inside:
  assumes "permutes_domain p" "i < plength p"
  shows "(img p ^^ t) i < plength p"
  by (induction t) (simp_all add: assms img_inside(2))

lemma least_period:
  assumes "permutes_domain p" "i < plength p"
  obtains m where "0 < m" "(img p ^^ m) i = i" "\<forall>t. 0 < t \<and> t < m \<longrightarrow> (img p ^^ t) i \<noteq> i"
proof -
  have "{y. \<exists>t. y = (img p ^^ t) i} \<subseteq> {0..<plength p}"
    using funpow_img_inside[OF assms] by auto
  then have "finite {y. \<exists>t. y = (img p ^^ t) i}" by (rule finite_subset) simp
  with inj_img[OF assms(1)] obtain m0 where m0: "0 < m0" "(img p ^^ m0) i = i"
    by (rule funpow_inj_finite)
  define m where "m = (LEAST m. 0 < m \<and> (img p ^^ m) i = i)"
  have "0 < m \<and> (img p ^^ m) i = i"
    unfolding m_def using m0 by (intro LeastI[of "\<lambda>m. 0 < m \<and> (img p ^^ m) i = i" m0]) simp
  moreover have "\<forall>t. 0 < t \<and> t < m \<longrightarrow> (img p ^^ t) i \<noteq> i"
    unfolding m_def using not_less_Least by blast
  ultimately show thesis using that by blast
qed

lemma not_fixed_along_orbit:
  assumes "inj f" "f i \<noteq> i"
  shows "f ((f ^^ t) i) \<noteq> (f ^^ t) i"
proof
  assume "f ((f ^^ t) i) = (f ^^ t) i"
  then have "(f ^^ t) (f i) = (f ^^ t) i" by (simp add: funpow_swap1)
  moreover have "inj (f ^^ t)" using assms(1) by simp
  ultimately have "f i = i" by (simp add: inj_eq)
  with assms(2) show False by simp
qed

lemma back_closed_funpow:
  assumes "\<forall>x. f x \<in> S \<longrightarrow> x \<in> S" "(f ^^ t) x \<in> S"
  shows "x \<in> S"
  using assms(2)
proof (induction t arbitrary: x)
  case 0
  then show ?case by simp
next
  case (Suc t)
  then have "(f ^^ t) (f x) \<in> S" by (simp add: funpow_swap1)
  then have "f x \<in> S" by (rule Suc.IH)
  with assms(1) show ?case by blast
qed

lemma cycle_loop_run:
  assumes pd: "permutes_domain p" and i: "i < plength p"
    and ret: "(img p ^^ (k + d)) i = i"
    and away: "\<forall>t. k \<le> t \<and> t < k + d \<longrightarrow> (img p ^^ t) i \<noteq> i"
  shows "\<exists>used'. cycle_loop p (idx i) (idx ((img p ^^ k) i)) cyc used
           = Some (cyc @ map (\<lambda>t. idx ((img p ^^ t) i)) [k..<k + d], used') \<and>
         dom used' = dom used \<union> (\<lambda>t. idx ((img p ^^ t) i)) ` {k..<k + d}"
  using ret away
proof (induction d arbitrary: k cyc used)
  case 0
  then have "idx ((img p ^^ k) i) = idx i" by simp
  then have "cycle_loop p (idx i) (idx ((img p ^^ k) i)) cyc used = Some (cyc, used)"
    by (subst cycle_loop.simps) simp
  then show ?case by simp
next
  case (Suc d)
  let ?j = "idx ((img p ^^ k) i)"
  have ne: "?j \<noteq> idx i" using Suc.prems(2) by (simp add: idx_inj)
  have nxt: "getProp p ?j = idx ((img p ^^ Suc k) i)"
    using img_inside(1)[OF pd funpow_img_inside[OF pd i, of k]] by simp
  have unfold: "cycle_loop p (idx i) ?j cyc used
          = cycle_loop p (idx i) (idx ((img p ^^ Suc k) i)) (cyc @ [?j]) (used(?j \<mapsto> True))"
    using ne nxt by (subst cycle_loop.simps) simp
  have "(img p ^^ (Suc k + d)) i = i" using Suc.prems(1) by simp
  moreover have "\<forall>t. Suc k \<le> t \<and> t < Suc k + d \<longrightarrow> (img p ^^ t) i \<noteq> i"
    using Suc.prems(2) by simp
  ultimately obtain used' where
    run: "cycle_loop p (idx i) (idx ((img p ^^ Suc k) i)) (cyc @ [?j]) (used(?j \<mapsto> True))
           = Some ((cyc @ [?j]) @ map (\<lambda>t. idx ((img p ^^ t) i)) [Suc k..<Suc k + d], used')"
    and dm: "dom used' = dom (used(?j \<mapsto> True)) \<union> (\<lambda>t. idx ((img p ^^ t) i)) ` {Suc k..<Suc k + d}"
    using Suc.IH[of "Suc k" "cyc @ [?j]" "used(?j \<mapsto> True)"] by blast
  have l: "[k..<k + Suc d] = k # [Suc k..<Suc k + d]" by (simp add: upt_conv_Cons)
  have s: "{k..<k + Suc d} = insert k {Suc k..<Suc k + d}" by auto
  have "cycle_loop p (idx i) ?j cyc used
          = Some (cyc @ map (\<lambda>t. idx ((img p ^^ t) i)) [k..<k + Suc d], used')"
    unfolding unfold run l by simp
  moreover have "dom used' = dom used \<union> (\<lambda>t. idx ((img p ^^ t) i)) ` {k..<k + Suc d}"
    unfolding dm s by auto
  ultimately show ?case by blast
qed

lemma scan_inv_skip:
  assumes "scan_inv p i used cs" "img p i = i \<or> i \<in> set (concat cs)"
  shows "scan_inv p (Suc i) used cs"
proof -
  have a: "\<forall>c\<in>set cs. orbit_list (img p) c \<and> hd c < Suc i"
    using assms(1) by (auto simp: scan_inv_def)
  have b: "\<forall>x<Suc i. img p x \<noteq> x \<longrightarrow> x \<in> set (concat cs)"
  proof (intro allI impI)
    fix x assume "x < Suc i" "img p x \<noteq> x"
    then consider "x < i" | "x = i" by linarith
    then show "x \<in> set (concat cs)"
    proof cases
      case 1
      then show ?thesis using assms(1) \<open>img p x \<noteq> x\<close> unfolding scan_inv_def by blast
    next
      case 2
      then show ?thesis using assms(2) \<open>img p x \<noteq> x\<close> by simp
    qed
  qed
  show ?thesis
    using assms(1) a b unfolding scan_inv_def by simp
qed

lemma new_cycle:
  assumes pd: "permutes_domain p" and inv: "scan_inv p i used cs" and i: "i < plength p"
    and ne: "img p i \<noteq> i" and fresh: "i \<notin> set (concat cs)"
    and m: "0 < m" "(img p ^^ m) i = i" "\<forall>t. 0 < t \<and> t < m \<longrightarrow> (img p ^^ t) i \<noteq> i"
    and c: "c = map (\<lambda>t. (img p ^^ t) i) [0..<m]"
  shows "orbit_list (img p) c" and "hd c = i" and "distinct c"
    and "set c \<inter> set (concat cs) = {}"
    and "\<forall>x\<in>set c. x < plength p \<and> img p x \<noteq> x"
    and "\<forall>x. img p x \<in> set c \<longrightarrow> x \<in> set c"
proof -
  let ?f = "img p"
  have inj: "inj ?f" using pd by (rule inj_img)
  have injt: "inj (?f ^^ t)" for t using inj by simp
  have closed: "\<forall>x. ?f x \<in> set (concat cs) \<longrightarrow> x \<in> set (concat cs)"
    and low: "\<forall>x<i. ?f x \<noteq> x \<longrightarrow> x \<in> set (concat cs)"
    using inv by (simp_all add: scan_inv_def)
  have mem: "x \<in> set c \<longleftrightarrow> (\<exists>t<m. x = (?f ^^ t) i)" for x
    unfolding c by auto
  have len: "length c = m" and nth: "\<And>k. k < m \<Longrightarrow> c ! k = (?f ^^ k) i"
    unfolding c by simp_all
  have cne: "c \<noteq> []" using m(1) len by auto
  show hd: "hd c = i" using nth[of 0] m(1) cne by (simp add: hd_conv_nth)
  have lastc: "last c = (?f ^^ (m - 1)) i"
    using cne len nth[of "m - 1"] m(1) by (simp add: last_conv_nth)
  have "?f (last c) = (?f ^^ Suc (m - 1)) i" unfolding lastc by simp
  then have wrap: "?f (last c) = hd c" using m(1,2) hd by simp
  have notin: "(?f ^^ t) i \<notin> set (concat cs)" for t
    using back_closed_funpow[OF closed, of t i] fresh by blast
  have moved: "?f ((?f ^^ t) i) \<noteq> (?f ^^ t) i" for t
    using inj ne by (rule not_fixed_along_orbit)
  have least: "i \<le> x" if "x \<in> set c" for x
  proof (rule ccontr)
    assume "\<not> i \<le> x"
    then have "x < i" by simp
    from that obtain t where t: "x = (?f ^^ t) i" using mem by blast
    have "?f x \<noteq> x" unfolding t by (rule moved)
    with \<open>x < i\<close> low have "x \<in> set (concat cs)" by blast
    with notin[of t] t show False by simp
  qed
  show "orbit_list ?f c"
    unfolding orbit_list_def using cne nth len wrap least hd by simp
  show "distinct c"
  proof -
    have "inj_on (\<lambda>t. (?f ^^ t) i) {0..<m}"
    proof (rule inj_onI)
      fix a b assume ab: "a \<in> {0..<m}" "b \<in> {0..<m}" and eq: "(?f ^^ a) i = (?f ^^ b) i"
      have gen: False if lt: "u < v" "v < m" and e: "(?f ^^ u) i = (?f ^^ v) i" for u v
      proof -
        have "(?f ^^ v) i = (?f ^^ u) ((?f ^^ (v - u)) i)"
          using lt(1) funpow_add[of u "v - u" ?f] by simp
        with e have "(?f ^^ u) ((?f ^^ (v - u)) i) = (?f ^^ u) i" by simp
        then have "(?f ^^ (v - u)) i = i" using injt[of u] by (simp add: inj_eq)
        moreover have "0 < v - u" "v - u < m" using lt by simp_all
        ultimately show False using m(3) by blast
      qed
      show "a = b"
      proof (rule ccontr)
        assume "a \<noteq> b"
        then consider "a < b" | "b < a" by linarith
        then show False using gen[of a b] gen[of b a] ab eq by cases simp_all
      qed
    qed
    then show ?thesis unfolding c by (simp add: distinct_map)
  qed
  show "set c \<inter> set (concat cs) = {}"
  proof (rule ccontr)
    assume "set c \<inter> set (concat cs) \<noteq> {}"
    then obtain x where "x \<in> set c" "x \<in> set (concat cs)" by blast
    then show False using mem[of x] notin by auto
  qed
  show "\<forall>x\<in>set c. x < plength p \<and> ?f x \<noteq> x"
    using mem moved funpow_img_inside[OF pd i] by auto
  show "\<forall>x. ?f x \<in> set c \<longrightarrow> x \<in> set c"
  proof (intro allI impI)
    fix x assume "?f x \<in> set c"
    then obtain t where t: "t < m" "?f x = (?f ^^ t) i" using mem by blast
    show "x \<in> set c"
    proof (cases t)
      case 0
      then have "?f x = ?f ((?f ^^ (m - 1)) i)"
        using t(2) m(1,2) funpow.simps(2)[of "m - 1" ?f] by simp
      then have "x = (?f ^^ (m - 1)) i" using inj by (simp add: inj_eq)
      then show ?thesis using mem m(1) by (metis diff_less zero_less_one)
    next
      case (Suc t')
      then have "?f x = ?f ((?f ^^ t') i)" using t(2) by simp
      then have "x = (?f ^^ t') i" using inj by (simp add: inj_eq)
      then show ?thesis using mem t(1) Suc by (metis Suc_lessD)
    qed
  qed
qed

lemma scan_inv_new:
  assumes pd: "permutes_domain p" and inv: "scan_inv p i used cs" and i: "i < plength p"
    and ne: "img p i \<noteq> i" and fresh: "i \<notin> set (concat cs)"
  shows "\<exists>c used'. cycle_loop p (idx i) (getProp p (idx i)) [idx i] (used(idx i \<mapsto> True))
                      = Some (map idx c, used') \<and>
                   scan_inv p (Suc i) used' (cs @ [c])"
proof -
  let ?f = "img p"
  from pd i obtain m where m: "0 < m" "(?f ^^ m) i = i"
    "\<forall>t. 0 < t \<and> t < m \<longrightarrow> (?f ^^ t) i \<noteq> i" by (rule least_period)
  define c where "c = map (\<lambda>t. (?f ^^ t) i) [0..<m]"
  note nc = new_cycle[OF pd inv i ne fresh m c_def]
  have start: "getProp p (idx i) = idx ((?f ^^ 1) i)"
    using img_inside(1)[OF pd i] by simp
  have "(?f ^^ (1 + (m - 1))) i = i" using m(1,2) by simp
  moreover have "\<forall>t. 1 \<le> t \<and> t < 1 + (m - 1) \<longrightarrow> (?f ^^ t) i \<noteq> i"
  proof (intro allI impI)
    fix t assume "1 \<le> t \<and> t < 1 + (m - 1)"
    then have "0 < t \<and> t < m" using m(1) by linarith
    then show "(?f ^^ t) i \<noteq> i" using m(3) by blast
  qed
  ultimately obtain used' where
    run: "cycle_loop p (idx i) (idx ((?f ^^ 1) i)) [idx i] (used(idx i \<mapsto> True))
            = Some ([idx i] @ map (\<lambda>t. idx ((?f ^^ t) i)) [1..<1 + (m - 1)], used')"
    and dm: "dom used' = dom (used(idx i \<mapsto> True)) \<union> (\<lambda>t. idx ((?f ^^ t) i)) ` {1..<1 + (m - 1)}"
    using cycle_loop_run[OF pd i, of 1 "m - 1" "[idx i]" "used(idx i \<mapsto> True)"] by blast
  have l: "[0..<m] = 0 # [1..<1 + (m - 1)]" using m(1) by (simp add: upt_conv_Cons)
  have mc: "map idx c = [idx i] @ map (\<lambda>t. idx ((?f ^^ t) i)) [1..<1 + (m - 1)]"
    unfolding c_def l by simp
  have sc: "set c = insert i ((\<lambda>t. (?f ^^ t) i) ` {1..<1 + (m - 1)})"
  proof -
    have "set c = (\<lambda>t. (?f ^^ t) i) ` set [0..<m]" unfolding c_def by (simp only: set_map)
    also have "set [0..<m] = insert 0 {1..<1 + (m - 1)}" using m(1) by auto
    also have "(\<lambda>t. (?f ^^ t) i) ` insert 0 {1..<1 + (m - 1)}
                 = insert i ((\<lambda>t. (?f ^^ t) i) ` {1..<1 + (m - 1)})"
      by (simp only: image_insert funpow_0)
    finally show ?thesis .
  qed
  have du: "dom used = idx ` set (concat cs)" using inv by (simp add: scan_inv_def)
  have d': "dom used' = idx ` set (concat (cs @ [c]))"
  proof -
    define T where "T = (\<lambda>t. (?f ^^ t) i) ` {1..<1 + (m - 1)}"
    have "(\<lambda>t. idx ((?f ^^ t) i)) ` {1..<1 + (m - 1)} = idx ` T"
      unfolding T_def by (simp only: image_image)
    then have "dom used' = insert (idx i) (dom used) \<union> idx ` T"
      unfolding dm by simp
    also have "\<dots> = idx ` (set (concat cs) \<union> insert i T)"
      unfolding du by blast
    also have "set (concat cs) \<union> insert i T = set (concat (cs @ [c]))"
      using sc unfolding T_def[symmetric] by simp
    finally show ?thesis .
  qed
  have o': "\<forall>c'\<in>set (cs @ [c]). orbit_list ?f c' \<and> hd c' < Suc i"
    using inv nc(1,2) by (auto simp: scan_inv_def)
  have dist': "distinct (concat (cs @ [c]))"
    using inv nc(3,4) by (auto simp: scan_inv_def)
  have in': "\<forall>x\<in>set (concat (cs @ [c])). x < plength p \<and> ?f x \<noteq> x"
    using inv nc(5) by (auto simp: scan_inv_def)
  have ic: "i \<in> set c" unfolding sc by simp
  have low': "\<forall>x<Suc i. ?f x \<noteq> x \<longrightarrow> x \<in> set (concat (cs @ [c]))"
  proof (intro allI impI)
    fix x assume "x < Suc i" "?f x \<noteq> x"
    then consider "x < i" | "x = i" by linarith
    then show "x \<in> set (concat (cs @ [c]))"
    proof cases
      case 1
      then have "x \<in> set (concat cs)" using inv \<open>?f x \<noteq> x\<close> unfolding scan_inv_def by blast
      then show ?thesis by simp
    next
      case 2
      then show ?thesis using ic by simp
    qed
  qed
  have cl': "\<forall>x. ?f x \<in> set (concat (cs @ [c])) \<longrightarrow> x \<in> set (concat (cs @ [c]))"
  proof (intro allI impI)
    fix x assume "?f x \<in> set (concat (cs @ [c]))"
    then consider "?f x \<in> set (concat cs)" | "?f x \<in> set c" by auto
    then show "x \<in> set (concat (cs @ [c]))"
    proof cases
      case 1
      then have "x \<in> set (concat cs)" using inv unfolding scan_inv_def by blast
      then show ?thesis by simp
    next
      case 2
      then have "x \<in> set c" using nc(6) by blast
      then show ?thesis by simp
    qed
  qed
  have so': "sorted_wrt (<) (map hd (cs @ [c]))"
    using inv nc(2) by (auto simp: scan_inv_def sorted_wrt_append)
  have "scan_inv p (Suc i) used' (cs @ [c])"
    unfolding scan_inv_def using d' o' dist' in' low' cl' so' by blast
  moreover have "cycle_loop p (idx i) (getProp p (idx i)) [idx i] (used(idx i \<mapsto> True))
                   = Some (map idx c, used')"
    unfolding start run mc ..
  ultimately show ?thesis by blast
qed

lemma cycles_scan_step:
  "cycles_scan perm (i # rest) already_used cs =
     (if getProp perm (idx i) \<noteq> idx i \<and> already_used (idx i) = None
      then (case cycle_loop perm (idx i) (getProp perm (idx i)) [idx i]
                   (already_used(idx i \<mapsto> True)) of
              None \<Rightarrow> None
            | Some (curr_cycle, already_used') \<Rightarrow>
                cycles_scan perm rest already_used' (cs @ [curr_cycle]))
      else cycles_scan perm rest already_used cs)"
  by (simp add: idx_def)

lemma scan_loop:
  assumes pd: "permutes_domain p"
  shows "scan_inv p i used cs \<Longrightarrow> i \<le> plength p \<Longrightarrow>
     \<exists>cs' used'. cycles_scan p [i..<plength p] used (map (map idx) cs) = Some (map (map idx) cs') \<and>
                 scan_inv p (plength p) used' cs'"
proof (induction "plength p - i" arbitrary: i used cs)
  case 0
  then have "i = plength p" by simp
  then show ?case using "0.prems"(1) by auto
next
  case (Suc d)
  then have i: "i < plength p" by simp
  have l: "[i..<plength p] = i # [Suc i..<plength p]" using i by (simp add: upt_conv_Cons)
  have d: "d = plength p - Suc i" using Suc.hyps(2) by simp
  have g: "getProp p (idx i) = idx (img p i)" using pd i by (rule img_inside)
  have du: "dom used = idx ` set (concat cs)" using Suc.prems(1) by (simp add: scan_inv_def)
  have u: "used (idx i) = None \<longleftrightarrow> i \<notin> set (concat cs)"
  proof -
    have "used (idx i) = None \<longleftrightarrow> idx i \<notin> dom used" by auto
    also have "\<dots> \<longleftrightarrow> i \<notin> set (concat cs)" unfolding du using inj_idx by (simp add: inj_image_mem_iff)
    finally show ?thesis .
  qed
  show ?case
  proof (cases "img p i \<noteq> i \<and> i \<notin> set (concat cs)")
    case True
    then obtain c used1 where
      run: "cycle_loop p (idx i) (getProp p (idx i)) [idx i] (used(idx i \<mapsto> True)) = Some (map idx c, used1)"
      and inv1: "scan_inv p (Suc i) used1 (cs @ [c])"
      using scan_inv_new[OF pd Suc.prems(1) i] by blast
    have "cycles_scan p [i..<plength p] used (map (map idx) cs)
            = cycles_scan p [Suc i..<plength p] used1 (map (map idx) (cs @ [c]))"
      unfolding l cycles_scan_step using True g u run by (simp add: idx_inj)
    moreover have "\<exists>cs' used'. cycles_scan p [Suc i..<plength p] used1 (map (map idx) (cs @ [c]))
                       = Some (map (map idx) cs') \<and> scan_inv p (plength p) used' cs'"
      using Suc.hyps(1)[OF d inv1] i by simp
    ultimately show ?thesis by simp
  next
    case False
    then have inv1: "scan_inv p (Suc i) used cs"
      using scan_inv_skip[OF Suc.prems(1)] by blast
    have "cycles_scan p [i..<plength p] used (map (map idx) cs)
            = cycles_scan p [Suc i..<plength p] used (map (map idx) cs)"
      unfolding l cycles_scan_step using False g u by (auto simp: idx_inj)
    moreover have "\<exists>cs' used'. cycles_scan p [Suc i..<plength p] used (map (map idx) cs)
                       = Some (map (map idx) cs') \<and> scan_inv p (plength p) used' cs'"
      using Suc.hyps(1)[OF d inv1] i by simp
    ultimately show ?thesis by simp
  qed
qed

lemma getCycles_decomposition:
  assumes "permutes_domain p"
  shows "\<exists>cs. getCycles p = Some (map (map idx) cs) \<and>
              (\<forall>c\<in>set cs. orbit_list (img p) c) \<and> distinct (concat cs) \<and>
              set (concat cs) = {x. x < plength p \<and> img p x \<noteq> x} \<and>
              sorted_wrt (<) (map hd cs)"
proof -
  have "scan_inv p 0 Map.empty []" by (simp add: scan_inv_def)
  from scan_loop[OF assms this] obtain cs used' where
    r: "cycles_scan p [0..<plength p] Map.empty (map (map idx) []) = Some (map (map idx) cs)"
    and inv: "scan_inv p (plength p) used' cs" by auto
  have "getCycles p = Some (map (map idx) cs)" using r by (simp add: getCycles_def)
  moreover have "\<forall>c\<in>set cs. orbit_list (img p) c" "distinct (concat cs)" "sorted_wrt (<) (map hd cs)"
    using inv by (simp_all add: scan_inv_def)
  moreover have "set (concat cs) = {x. x < plength p \<and> img p x \<noteq> x}"
  proof (rule set_eqI)
    fix x
    have "x \<in> set (concat cs) \<Longrightarrow> x < plength p \<and> img p x \<noteq> x"
      using inv unfolding scan_inv_def by blast
    moreover have "x < plength p \<and> img p x \<noteq> x \<Longrightarrow> x \<in> set (concat cs)"
      using inv unfolding scan_inv_def by blast
    ultimately show "x \<in> set (concat cs) \<longleftrightarrow> x \<in> {x. x < plength p \<and> img p x \<noteq> x}" by blast
  qed
  ultimately show ?thesis by blast
qed

lemma getIdentity_entries:
  assumes "getIdentity n = Constructed q"
  shows "entries q = map idx [0..<nat n]"
proof -
  have "map (\<lambda>i. Num (i + PERMUTATION_INDEX)) [0..n - 1] = map idx [0..<nat n]"
    using upto_nat_as_upt[of "n - 1"] by (simp add: PERMUTATION_INDEX_def comp_def idx_def)
  moreover have "Permutation (map (\<lambda>i. Num (i + PERMUTATION_INDEX)) [0..n - 1]) = Constructed q"
    using assms by (simp add: getIdentity_def fromFunction_def)
  ultimately show ?thesis by (simp add: Permutation_entries)
qed

lemma getIdentity_fixed:
  assumes "getIdentity n = Constructed q"
  shows "permutes_domain q" and "img q x = x"
proof -
  have e: "entries q = map (\<lambda>i. Num (int i)) [0..<nat n]"
    using getIdentity_entries[OF assms] by (simp add: idx_def[abs_def])
  then show pd: "permutes_domain q" by (rule permutes_domainI) simp_all
  have len: "plength q = nat n" using e by (simp add: plength_def)
  show "img q x = x"
  proof (cases "x < plength q")
    case True
    then have "getProp q (Num (int x)) = Num (int x)"
      using len by (simp add: getProp_index e)
    then show ?thesis by (simp add: img_def)
  next
    case False
    then show ?thesis by (simp add: img_outside)
  qed
qed

text \<open>
  C2, for Permutations whose stored values are the indices \<open>0, \<dots>, n - 1\<close> in some
  order: \<^verbatim>\<open>cycles\<close> returns a list of cycles \<open>cs\<close> such that every cycle starts at its
  smallest member and lists the orbit of that member in application order
  (\<open>i, perm(i), perm(perm(i)), \<dots>\<close>, the last member mapped back to the first), no index
  is listed twice, the indices listed are exactly the indices that are not fixed, and the
  cycles are in ascending order of their first members. The Permutation \<open>[1,2,0]\<close> has
  the cycles \<open>[[0,1,2]]\<close>, and an identity Permutation has none.
\<close>

theorem C2_cycles_decomposition:
  "(permutes_domain p \<longrightarrow>
      (\<exists>cs. cycles p = Some (map (map idx) cs) \<and>
            (\<forall>c\<in>set cs. orbit_list (img p) c) \<and> distinct (concat cs) \<and>
            set (concat cs) = {x. x < plength p \<and> img p x \<noteq> x} \<and>
            sorted_wrt (<) (map hd cs))) \<and>
   cycles \<lparr>entries = [Num 1, Num 2, Num 0]\<rparr> = Some [[Num 0, Num 1, Num 2]] \<and>
   (getIdentity n = Constructed q \<longrightarrow> cycles q = Some [])"
proof (intro conjI impI)
  assume "permutes_domain p"
  then show "\<exists>cs. cycles p = Some (map (map idx) cs) \<and>
            (\<forall>c\<in>set cs. orbit_list (img p) c) \<and> distinct (concat cs) \<and>
            set (concat cs) = {x. x < plength p \<and> img p x \<noteq> x} \<and>
            sorted_wrt (<) (map hd cs)"
    unfolding cycles_def by (rule getCycles_decomposition)
next
  show "cycles \<lparr>entries = [Num 1, Num 2, Num 0]\<rparr> = Some [[Num 0, Num 1, Num 2]]"
    by code_simp
next
  assume id: "getIdentity n = Constructed q"
  from getCycles_decomposition[OF getIdentity_fixed(1)[OF id]] obtain cs where
    cs: "getCycles q = Some (map (map idx) cs)" "\<forall>c\<in>set cs. orbit_list (img q) c"
      "set (concat cs) = {x. x < plength q \<and> img q x \<noteq> x}" by blast
  have "set (concat cs) = {}" using cs(3) getIdentity_fixed(2)[OF id] by simp
  moreover have "\<forall>c\<in>set cs. c \<noteq> []" using cs(2) by (simp add: orbit_list_def)
  ultimately have "cs = []" by (cases cs) auto
  then show "cycles q = Some []" using cs(1) by (simp add: cycles_def)
qed

theorem C2_cycles_decomposition_witness:
  "(\<exists>cs. cycles \<lparr>entries = [Num 1, Num 2, Num 0, Num 4, Num 3]\<rparr> = Some (map (map idx) cs) \<and>
         distinct (concat cs) \<and>
         set (concat cs) = {x. x < 5 \<and> img \<lparr>entries = [Num 1, Num 2, Num 0, Num 4, Num 3]\<rparr> x \<noteq> x} \<and>
         sorted_wrt (<) (map hd cs)) \<and>
   cycles \<lparr>entries = [Num 1, Num 2, Num 0, Num 4, Num 3]\<rparr>
     = Some [[Num 0, Num 1, Num 2], [Num 3, Num 4]] \<and>
   cycles \<lparr>entries = [Num 0, Num 1, Num 2]\<rparr> = Some []"
proof -
  let ?p = "\<lparr>entries = [Num 1, Num 2, Num 0, Num 4, Num 3]\<rparr>"
  have pd: "permutes_domain ?p" by code_simp
  have n: "plength ?p = 5" by (simp add: plength_def)
  have id: "getIdentity 3 = Constructed \<lparr>entries = [Num 0, Num 1, Num 2]\<rparr>"
    by (simp add: getIdentity_def fromFunction_def upto.simps PERMUTATION_INDEX_def
        eval_Permutation storable_def)
  note T = C2_cycles_decomposition[of ?p 3 "\<lparr>entries = [Num 0, Num 1, Num 2]\<rparr>"]
  have 1: "\<exists>cs. cycles ?p = Some (map (map idx) cs) \<and> distinct (concat cs) \<and>
         set (concat cs) = {x. x < 5 \<and> img ?p x \<noteq> x} \<and> sorted_wrt (<) (map hd cs)"
    using T[THEN conjunct1, THEN mp, OF pd] unfolding n by blast
  have 2: "cycles ?p = Some [[Num 0, Num 1, Num 2], [Num 3, Num 4]]" by code_simp
  have 3: "cycles \<lparr>entries = [Num 0, Num 1, Num 2]\<rparr> = Some []"
    using T[THEN conjunct2, THEN conjunct2, THEN mp, OF id] .
  from 1 2 3 show ?thesis by blast
qed

end
